theory Spec2Isabelle
  imports Main "HOL-Library.Word"
begin

unbundle bit_operations_syntax

section \<open>Data model of ReflectaFunctions.cpp\<close>

text \<open>
  \<open>byte\<close> is the Arduino \<open>byte\<close> (unsigned 8 bit); \<open>int8_t\<close> values are the same
  8-bit words, read with \<open>sint\<close>; \<open>int16_t\<close> values are 16-bit words.
\<close>

type_synonym byte = "8 word"
type_synonym int16 = "16 word"

text \<open>
  A function pointer stored in \<open>vtable\<close>: one of the four functions of this file that
  \<open>setup\<close> installs, or a function bound by another library, named by a number. The
  body of a bound function is not part of this file; it is the parameter \<open>native\<close> of
  \<open>run\<close>. The null pointer is \<open>None\<close>.
\<close>

datatype func = PushArray | QueryInterface | SendResponse | SendResponseCount | Native nat

text \<open>The error codes handed to \<open>reflectaFrames::sendError\<close> (macros of the header).\<close>

datatype error =
    FUNCTIONS_ERROR_FUNCTION_CONFLICT
  | FUNCTIONS_ERROR_FUNCTION_NOT_FOUND
  | FUNCTIONS_ERROR_STACK_OVERFLOW
  | FUNCTIONS_ERROR_STACK_UNDERFLOW
  | FUNCTIONS_ERROR_FRAME_TOO_SMALL

text \<open>
  What the transport library is asked to send: \<open>SendError code\<close> for
  \<open>sendError(code)\<close>, and \<open>SendFrame bytes size\<close> for \<open>sendFrame(frame, size)\<close>, where
  \<open>bytes\<close> are the bytes the caller stored in the buffer, in index order from 0, and
  \<open>size\<close> is the length argument.
\<close>

datatype outmsg = SendError error | SendFrame "byte list" byte

text \<open>
  The globals of namespace \<open>reflectaFunctions\<close>. Arrays are functions from the index;
  \<open>mem\<close> is the memory the pointers \<open>execution\<close> and \<open>frameTop\<close> point into, by
  address. \<open>reads\<close> records every address read through \<open>execution\<close>, in order, and
  \<open>sent\<close> every call into the transport library, in order.
\<close>

record state =
  openFunctionIndex :: byte
  vtable :: "nat \<Rightarrow> func option"
  indexOfInterfaces :: byte
  interfaceIds :: "nat \<Rightarrow> string"
  interfaceStart :: "nat \<Rightarrow> byte"
  callerSequence :: byte
  parameterStackTop :: int
  parameterStack :: "int \<Rightarrow> byte"
  execution :: nat
  frameTop :: nat
  mem :: "nat \<Rightarrow> byte"
  reads :: "nat list"
  sent :: "outmsg list"

definition maximumInterfaces :: nat where
  "maximumInterfaces = 25"

definition parameterStackMax :: int where
  "parameterStackMax = 128"

text \<open>
  The state at program start: the initialisers of the source, and zero for every global
  without one (static storage).
\<close>

definition init :: "(nat \<Rightarrow> byte) \<Rightarrow> state" where
  "init m = \<lparr> openFunctionIndex = 4, vtable = (\<lambda>_. None), indexOfInterfaces = 0,
     interfaceIds = (\<lambda>_. []), interfaceStart = (\<lambda>_. 0), callerSequence = 0,
     parameterStackTop = - 1, parameterStack = (\<lambda>_. 0), execution = 0, frameTop = 0,
     mem = m, reads = [], sent = [] \<rparr>"

section \<open>Transport collaborator\<close>

definition sendError :: "error \<Rightarrow> state \<Rightarrow> state" where
  "sendError e s = s\<lparr>sent := sent s @ [SendError e]\<rparr>"

definition sendFrame :: "byte list \<Rightarrow> byte \<Rightarrow> state \<Rightarrow> state" where
  "sendFrame frame len s = s\<lparr>sent := sent s @ [SendFrame frame len]\<rparr>"

section \<open>Function table and interface registry\<close>

function knownInterface_loop :: "state \<Rightarrow> string \<Rightarrow> nat \<Rightarrow> bool" where
  "knownInterface_loop s interfaceId index =
     (if index < unat (indexOfInterfaces s)
      then (if interfaceIds s index = interfaceId then True
            else knownInterface_loop s interfaceId (index + 1))
      else False)"
  by pat_completeness auto
termination
  by (relation "measure (\<lambda>(s, i, index). unat (indexOfInterfaces s) - index)") auto

declare knownInterface_loop.simps [simp del]

definition knownInterface :: "state \<Rightarrow> string \<Rightarrow> bool" where
  "knownInterface s interfaceId = knownInterface_loop s interfaceId 0"

text \<open>\<open>bind\<close> returns the function id and the new state.\<close>

definition bind :: "string \<Rightarrow> func option \<Rightarrow> state \<Rightarrow> byte \<times> state" where
  "bind interfaceId function s =
     (let s1 = (if \<not> knownInterface s interfaceId
                then s\<lparr>interfaceIds := (interfaceIds s)(unat (indexOfInterfaces s) := interfaceId),
                       interfaceStart := (interfaceStart s)(unat (indexOfInterfaces s) := openFunctionIndex s),
                       indexOfInterfaces := indexOfInterfaces s + 1\<rparr>
                else s);
          s2 = (if vtable s1 (unat (openFunctionIndex s1)) = None
                then s1\<lparr>vtable := (vtable s1)(unat (openFunctionIndex s1) := function)\<rparr>
                else sendError FUNCTIONS_ERROR_FUNCTION_CONFLICT s1)
      in (openFunctionIndex s2, s2\<lparr>openFunctionIndex := openFunctionIndex s2 + 1\<rparr>))"

text \<open>A sequence of \<open>bind\<close> calls, first call first.\<close>

fun binds :: "(string \<times> func option) list \<Rightarrow> state \<Rightarrow> state" where
  "binds [] s = s"
| "binds ((interfaceId, function) # rest) s = binds rest (snd (bind interfaceId function s))"

section \<open>Parameter stack\<close>

definition push :: "byte \<Rightarrow> state \<Rightarrow> state" where
  "push b s =
     (if parameterStackTop s = parameterStackMax
      then sendError FUNCTIONS_ERROR_STACK_OVERFLOW s
      else s\<lparr>parameterStackTop := parameterStackTop s + 1,
             parameterStack := (parameterStack s)(parameterStackTop s + 1 := b)\<rparr>)"

definition push16 :: "int16 \<Rightarrow> state \<Rightarrow> state" where
  "push16 w s =
     (if parameterStackTop s > parameterStackMax - 2
      then sendError FUNCTIONS_ERROR_STACK_OVERFLOW s
      else s\<lparr>parameterStackTop := parameterStackTop s + 2,
             parameterStack := (parameterStack s)
               (parameterStackTop s + 1 := ucast (signed_drop_bit 8 w),
                parameterStackTop s + 2 := ucast (w AND 0xFF))\<rparr>)"

definition pop :: "state \<Rightarrow> byte \<times> state" where
  "pop s =
     (if parameterStackTop s = - 1
      then (- 1, sendError FUNCTIONS_ERROR_STACK_UNDERFLOW s)
      else (parameterStack s (parameterStackTop s),
            s\<lparr>parameterStackTop := parameterStackTop s - 1\<rparr>))"

text \<open>
  \<open>pop16\<close>: the two \<open>int8_t\<close> cells are promoted to \<open>int\<close> with their sign, the second
  is shifted left by 8, and the sum is converted to \<open>int16_t\<close>. C++ leaves the order of
  the two operands of \<open>+\<close> open; the model reads the left one first, the order the
  documentation of \<open>pop16\<close> gives (low byte, then high byte).
\<close>

definition pop16 :: "state \<Rightarrow> int16 \<times> state" where
  "pop16 s =
     (if parameterStackTop s = - 1 \<or> parameterStackTop s = 0
      then (- 1, sendError FUNCTIONS_ERROR_STACK_UNDERFLOW s)
      else (scast (parameterStack s (parameterStackTop s))
              + push_bit 8 (scast (parameterStack s (parameterStackTop s - 1))),
            s\<lparr>parameterStackTop := parameterStackTop s - 2\<rparr>))"

text \<open>A sequence of \<open>push\<close> calls, first call first.\<close>

fun pushes :: "byte list \<Rightarrow> state \<Rightarrow> state" where
  "pushes [] s = s"
| "pushes (b # bs) s = pushes bs (push b s)"

section \<open>Response builder\<close>

text \<open>
  The loop of \<open>sendResponseCount\<close>: \<open>frame[3 + i] = pop()\<close> for \<open>i\<close> from 0 while
  \<open>i < count\<close>. The cells are written in index order, so the bytes stored from index 3
  on are collected in \<open>payload\<close>.
\<close>

function sendResponseCount_loop :: "int \<Rightarrow> int \<Rightarrow> byte list \<Rightarrow> state \<Rightarrow> byte list \<times> state" where
  "sendResponseCount_loop i count payload s =
     (if i < count
      then (let (v, s') = pop s in sendResponseCount_loop (i + 1) count (payload @ [v]) s')
      else (payload, s))"
  by pat_completeness auto
termination
  by (relation "measure (\<lambda>(i, count, payload, s). nat (count - i))") auto

declare sendResponseCount_loop.simps [simp del]

text \<open>
  \<open>FUNCTIONS_RESPONSE\<close> is a macro of the header, which is not part of the file: it is
  the parameter \<open>response\<close>. \<open>count\<close> is an \<open>int8_t\<close>, compared as a signed value, and
  \<open>size\<close> is \<open>3 + count\<close> cut to a byte.
\<close>

definition sendResponseCount :: "byte \<Rightarrow> state \<Rightarrow> state" where
  "sendResponseCount response s =
     (let (count, s1) = pop s;
          len = 3 + count;
          (payload, s2) = sendResponseCount_loop 0 (sint count) [] s1
      in sendFrame ([response, callerSequence s2, count] @ payload) len s2)"

definition sendResponse :: "byte \<Rightarrow> state \<Rightarrow> state" where
  "sendResponse response s = sendResponseCount response (push 1 s)"

section \<open>Built-in primitives\<close>

text \<open>The first loop of \<open>pushArray\<close>: \<open>push(*(execution + i))\<close> for \<open>i\<close> down to 0.\<close>

function pushArray_push :: "int \<Rightarrow> state \<Rightarrow> state" where
  "pushArray_push i s =
     (if i > - 1
      then pushArray_push (i - 1)
             (push (mem s (execution s + nat i)) (s\<lparr>reads := reads s @ [execution s + nat i]\<rparr>))
      else s)"
  by pat_completeness auto
termination
  by (relation "measure (\<lambda>(i, s). nat (i + 1))") auto

declare pushArray_push.simps [simp del]

text \<open>The second loop of \<open>pushArray\<close>: it moves \<open>execution\<close> and breaks once past \<open>frameTop\<close>.\<close>

function pushArray_advance :: "int \<Rightarrow> int \<Rightarrow> state \<Rightarrow> state" where
  "pushArray_advance i len s =
     (if i < len
      then (let s' = s\<lparr>execution := execution s + 1\<rparr>
            in if execution s' > frameTop s'
               then sendError FUNCTIONS_ERROR_FRAME_TOO_SMALL s'
               else pushArray_advance (i + 1) len s')
      else s)"
  by pat_completeness auto
termination
  by (relation "measure (\<lambda>(i, len, s). nat (len - i))") auto

declare pushArray_advance.simps [simp del]

definition pushArray :: "state \<Rightarrow> state" where
  "pushArray s =
     (let s1 = (if execution s = frameTop s
                then sendError FUNCTIONS_ERROR_FRAME_TOO_SMALL s else s);
          len = mem s1 (execution s1);
          s2 = s1\<lparr>execution := execution s1 + 1, reads := reads s1 @ [execution s1]\<rparr>;
          s3 = pushArray_push (uint len - 1) s2
      in pushArray_advance 0 (uint len) s3)"

text \<open>
  \<open>interfaceIds[index][stringIndex]\<close>: the Arduino \<open>String\<close> gives 0 for an index at or
  past its length.
\<close>

definition charAt :: "string \<Rightarrow> nat \<Rightarrow> byte" where
  "charAt str i = (if i < length str then of_char (str ! i) else 0)"

function queryInterface_chars :: "nat \<Rightarrow> int \<Rightarrow> state \<Rightarrow> state" where
  "queryInterface_chars index stringIndex s =
     (if stringIndex > - 1
      then queryInterface_chars index (stringIndex - 1)
             (push (charAt (interfaceIds s index) (nat stringIndex)) s)
      else s)"
  by pat_completeness auto
termination
  by (relation "measure (\<lambda>(index, stringIndex, s). nat (stringIndex + 1))") auto

declare queryInterface_chars.simps [simp del]

function queryInterface_loop :: "nat \<Rightarrow> state \<Rightarrow> state" where
  "queryInterface_loop index s =
     (if index < unat (indexOfInterfaces s)
      then (let s1 = queryInterface_chars index 4 s;
                s2 = push (interfaceStart s1 index) s1
            in queryInterface_loop (index + 1) s2)
      else s)"
  by pat_completeness auto
termination
proof (relation "measure (\<lambda>(index, s). 256 - index)")
  fix index :: nat and s :: state and s1 s2 :: state
  assume "index < unat (indexOfInterfaces s)"
  moreover have "unat (indexOfInterfaces s) < 256"
    using unsigned_less [of "indexOfInterfaces s", where ?'a = nat] by simp
  ultimately show "((index + 1, s2), (index, s)) \<in> measure (\<lambda>(index, s). 256 - index)"
    by simp
qed simp

declare queryInterface_loop.simps [simp del]

definition queryInterface :: "byte \<Rightarrow> state \<Rightarrow> state" where
  "queryInterface response s =
     (let s1 = queryInterface_loop 0 s;
          s2 = push ((5 + 1) * indexOfInterfaces s1) s1
      in sendResponseCount response s2)"

section \<open>Execution engine\<close>

text \<open>
  Calling through a function pointer. \<open>native k\<close> is the body of the bound function
  \<open>Native k\<close>: any function on the globals.
\<close>

definition call :: "byte \<Rightarrow> (nat \<Rightarrow> state \<Rightarrow> state) \<Rightarrow> func \<Rightarrow> state \<Rightarrow> state" where
  "call response native f s =
     (case f of
        PushArray \<Rightarrow> pushArray s
      | QueryInterface \<Rightarrow> queryInterface response s
      | SendResponse \<Rightarrow> sendResponse response s
      | SendResponseCount \<Rightarrow> sendResponseCount response s
      | Native k \<Rightarrow> native k s)"

definition run :: "byte \<Rightarrow> (nat \<Rightarrow> state \<Rightarrow> state) \<Rightarrow> byte \<Rightarrow> state \<Rightarrow> state" where
  "run response native i s =
     (case vtable s (unat i) of
        Some f \<Rightarrow> call response native f s
      | None \<Rightarrow> sendError FUNCTIONS_ERROR_FUNCTION_NOT_FOUND s)"

text \<open>\<open>*execution++\<close> in the loop of \<open>frameReceived\<close>: the state after the increment.\<close>

definition fetch :: "state \<Rightarrow> state" where
  "fetch s = s\<lparr>execution := execution s + 1, reads := reads s @ [execution s]\<rparr>"

text \<open>One turn of the loop body: \<open>run(*execution++)\<close>.\<close>

definition dispatchStep :: "byte \<Rightarrow> (nat \<Rightarrow> state \<Rightarrow> state) \<Rightarrow> state \<Rightarrow> state" where
  "dispatchStep response native s = run response native (mem s (execution s)) (fetch s)"

text \<open>
  The loop \<open>while (execution != frameTop) run(*execution++)\<close>. It need not end:
  \<open>None\<close> is the loop that never leaves.
\<close>

partial_function (option) frameLoop :: "byte \<Rightarrow> (nat \<Rightarrow> state \<Rightarrow> state) \<Rightarrow> state \<Rightarrow> state option" where
  "frameLoop response native s =
     (if execution s \<noteq> frameTop s
      then frameLoop response native (dispatchStep response native s)
      else Some s)"

text \<open>The three assignments that open \<open>frameReceived\<close>.\<close>

definition install :: "byte \<Rightarrow> byte \<Rightarrow> nat \<Rightarrow> state \<Rightarrow> state" where
  "install sequence frameLength frame s =
     s\<lparr>execution := frame, callerSequence := sequence, frameTop := frame + unat frameLength\<rparr>"

definition frameReceived ::
  "byte \<Rightarrow> (nat \<Rightarrow> state \<Rightarrow> state) \<Rightarrow> byte \<Rightarrow> byte \<Rightarrow> nat \<Rightarrow> state \<Rightarrow> state option" where
  "frameReceived response native sequence frameLength frame s =
     frameLoop response native (install sequence frameLength frame s)"

text \<open>The state after at most \<open>k\<close> turns of the loop of \<open>frameReceived\<close>.\<close>

fun frameSteps :: "byte \<Rightarrow> (nat \<Rightarrow> state \<Rightarrow> state) \<Rightarrow> nat \<Rightarrow> state \<Rightarrow> state" where
  "frameSteps response native 0 s = s"
| "frameSteps response native (Suc k) s =
     (if execution s \<noteq> frameTop s
      then frameSteps response native k (dispatchStep response native s)
      else s)"

section \<open>Notions used in the proofs\<close>

text \<open>
  \<open>stacked bs s\<close> is \<open>s\<close> with the bytes \<open>bs\<close> on top of its parameter stack, the last
  of \<open>bs\<close> topmost. \<open>idChars\<close> are the five characters \<open>queryInterface\<close> reads from an
  interface id, \<open>entryPushes\<close> the bytes it pushes for one interface, in push order, and
  \<open>entryBytes\<close> the same bytes in the order they are popped.
\<close>

definition stacked :: "byte list \<Rightarrow> state \<Rightarrow> state" where
  "stacked bs s = s\<lparr>parameterStackTop := parameterStackTop s + int (length bs),
     parameterStack := (\<lambda>i. if parameterStackTop s < i \<and> i \<le> parameterStackTop s + int (length bs)
                            then bs ! nat (i - parameterStackTop s - 1) else parameterStack s i)\<rparr>"

definition idChars :: "string \<Rightarrow> byte list" where
  "idChars str = map (charAt str) [0..<5]"

definition entryPushes :: "state \<Rightarrow> nat \<Rightarrow> byte list" where
  "entryPushes s i = rev (idChars (interfaceIds s i)) @ [interfaceStart s i]"

definition entryBytes :: "state \<Rightarrow> nat \<Rightarrow> byte list" where
  "entryBytes s i = interfaceStart s i # idChars (interfaceIds s i)"

text \<open>
  One turn of the first loop of \<open>pushArray\<close>: read the byte at \<open>execution + k\<close> and
  push it.
\<close>

definition readPush :: "nat \<Rightarrow> state \<Rightarrow> state" where
  "readPush k s = push (mem s (execution s + k)) (s\<lparr>reads := reads s @ [execution s + k]\<rparr>)"

text \<open>
  The invariant of \<open>bind\<close>: the first \<open>indexOfInterfaces\<close> cells of \<open>interfaceIds\<close> hold
  exactly the ids of \<open>ids\<close>, each once.
\<close>

definition registry :: "state \<Rightarrow> string set \<Rightarrow> bool" where
  "registry s ids \<longleftrightarrow>
     interfaceIds s ` {..<unat (indexOfInterfaces s)} = ids \<and> card ids = unat (indexOfInterfaces s)"

text \<open>
  What a turn of the loop of \<open>frameReceived\<close> from \<open>s\<close> must respect for the loop to
  end: the function it invokes leaves \<open>execution\<close> at or after the byte that follows the
  dispatched id (it does not move the cursor back) and not past \<open>frameTop\<close>, and leaves
  \<open>frameTop\<close> as it was.
\<close>

definition turn_in_frame :: "byte \<Rightarrow> (nat \<Rightarrow> state \<Rightarrow> state) \<Rightarrow> state \<Rightarrow> bool" where
  "turn_in_frame response native s \<longleftrightarrow>
     execution s + 1 \<le> execution (dispatchStep response native s) \<and>
     execution (dispatchStep response native s) \<le> frameTop (dispatchStep response native s) \<and>
     frameTop (dispatchStep response native s) = frameTop s"

text \<open>
  The states of two loops that never end, over a memory that holds the id 4 everywhere:
  \<open>rewinding\<close>, where id 4 is bound to a function that moves \<open>execution\<close> back by one,
  and \<open>extending\<close>, where it is bound to a function that moves \<open>frameTop\<close> on by one.
\<close>

definition extending :: "state \<Rightarrow> bool" where
  "extending s \<longleftrightarrow>
     frameTop s = execution s + 1 \<and> mem s = (\<lambda>_. 4) \<and> vtable s 4 = Some (Native 0)"

definition rewinding :: "state \<Rightarrow> bool" where
  "rewinding s \<longleftrightarrow>
     execution s = 100 \<and> frameTop s = 101 \<and> mem s 100 = 4 \<and> vtable s 4 = Some (Native 0)"

section \<open>Example states\<close>

text \<open>
  One interface \<open>AAAA1\<close> bound at id 4, and \<open>openFunctionIndex\<close> put back to 4, so that
  the next \<open>bind\<close> meets an occupied slot.
\<close>

definition conflict_ex :: state where
  "conflict_ex = (snd (bind ''AAAA1'' (Some (Native 0)) (init (\<lambda>_. 0))))\<lparr>openFunctionIndex := 4\<rparr>"

text \<open>
  Three binds after start: two functions of interface \<open>AAAA1\<close> (ids 4 and 5), one of
  \<open>BBBB1\<close> (id 6).
\<close>

definition two_interfaces :: state where
  "two_interfaces =
     binds [(''AAAA1'', Some (Native 0)), (''AAAA1'', Some (Native 1)), (''BBBB1'', Some (Native 2))]
       (init (\<lambda>_. 0))"

text \<open>
  \<open>pushArray\<close> about to run on the inline bytes \<open>3, 0x10, 0x20, 0x30\<close> at addresses 101
  to 104 of a frame that ends at 105.
\<close>

definition array_ex :: state where
  "array_ex = (init ((\<lambda>_. 0)(101 := 3, 102 := 0x10, 103 := 0x20, 104 := 0x30)))
                 \<lparr>execution := 101, frameTop := 105\<rparr>"

text \<open>
  The memory of a three-byte frame at addresses 100 to 102 holding \<open>0, 3, 0x10\<close>: id 0,
  bound to \<open>pushArray\<close>, then the length 3 and a single data byte. The bytes from 103
  on are not part of the frame.
\<close>

definition short_ex :: state where
  "short_ex = (init ((\<lambda>_. 0)(101 := 3, 102 := 0x10)))
                 \<lparr>vtable := (\<lambda>_. None)(0 := Some PushArray)\<rparr>"

text \<open>
  A four-byte frame at addresses 100 to 103 holding \<open>0, 1, 0x55, 9\<close>: id 0, bound to
  \<open>pushArray\<close>, with one inline byte, then the unbound id 9.
\<close>

definition script_ex :: state where
  "script_ex = (init ((\<lambda>_. 0)(101 := 1, 102 := 0x55, 103 := 9)))
                  \<lparr>vtable := (\<lambda>_. None)(0 := Some PushArray)\<rparr>"

text \<open>
  A bound function that moves \<open>execution\<close> back by one, another that moves \<open>frameTop\<close>
  on by one, and a function table that binds \<open>Native 0\<close> at id 4, over a memory that
  holds 4 everywhere. Which of the two functions \<open>Native 0\<close> is, is the parameter
  \<open>native\<close> of \<open>frameReceived\<close>.
\<close>

definition rewind :: "nat \<Rightarrow> state \<Rightarrow> state" where
  "rewind k s = s\<lparr>execution := execution s - 1\<rparr>"

definition extend :: "nat \<Rightarrow> state \<Rightarrow> state" where
  "extend k s = s\<lparr>frameTop := frameTop s + 1\<rparr>"

definition rewind_ex :: state where
  "rewind_ex = (init (\<lambda>_. 4))\<lparr>vtable := (\<lambda>_. None)(4 := Some (Native 0))\<rparr>"

section \<open>Parameter stack: pushing and popping runs of bytes\<close>


lemma push_other [simp]:
  "interfaceIds (push b s) = interfaceIds s"
  "interfaceStart (push b s) = interfaceStart s"
  "indexOfInterfaces (push b s) = indexOfInterfaces s"
  "callerSequence (push b s) = callerSequence s"
  "openFunctionIndex (push b s) = openFunctionIndex s"
  "vtable (push b s) = vtable s"
  "execution (push b s) = execution s"
  "frameTop (push b s) = frameTop s"
  "mem (push b s) = mem s"
  "reads (push b s) = reads s"
  by (simp_all add: push_def sendError_def)

lemma push_room:
  "parameterStackTop s < 128 \<Longrightarrow>
   push b s = s\<lparr>parameterStackTop := parameterStackTop s + 1,
               parameterStack := (parameterStack s)(parameterStackTop s + 1 := b)\<rparr>"
  by (simp add: push_def parameterStackMax_def)

lemma pushes_append: "pushes (as @ bs) s = pushes bs (pushes as s)"
  by (induction as arbitrary: s) simp_all

lemma pushes_stacked:
  "parameterStackTop s + int (length bs) \<le> 128 \<Longrightarrow> pushes bs s = stacked bs s"
proof (induction bs arbitrary: s)
  case Nil
  have "(\<lambda>i. if parameterStackTop s < i \<and> i \<le> parameterStackTop s
             then [] ! nat (i - parameterStackTop s - 1)
             else parameterStack s i) = parameterStack s"
    by (rule ext) auto
  then show ?case by (simp add: stacked_def)
next
  case (Cons b bs)
  let ?s1 = "push b s"
  from Cons.prems have room: "parameterStackTop s < 128" by simp
  have s1: "?s1 = s\<lparr>parameterStackTop := parameterStackTop s + 1,
               parameterStack := (parameterStack s)(parameterStackTop s + 1 := b)\<rparr>"
    using room by (rule push_room)
  have "parameterStackTop ?s1 + int (length bs) \<le> 128"
    using Cons.prems by (simp add: s1)
  then have "pushes bs ?s1 = stacked bs ?s1" by (rule Cons.IH)
  also have "\<dots> = stacked (b # bs) s"
  proof -
    let ?t = "parameterStackTop s"
    have "(\<lambda>i. if ?t + 1 < i \<and> i \<le> ?t + 1 + int (length bs)
               then bs ! nat (i - (?t + 1) - 1)
               else ((parameterStack s)(?t + 1 := b)) i)
        = (\<lambda>i. if ?t < i \<and> i \<le> ?t + int (length (b # bs))
               then (b # bs) ! nat (i - ?t - 1)
               else parameterStack s i)"
    proof (rule ext)
      fix i
      show "(if ?t + 1 < i \<and> i \<le> ?t + 1 + int (length bs)
               then bs ! nat (i - (?t + 1) - 1)
               else ((parameterStack s)(?t + 1 := b)) i)
        = (if ?t < i \<and> i \<le> ?t + int (length (b # bs))
               then (b # bs) ! nat (i - ?t - 1)
               else parameterStack s i)"
      proof (cases "?t + 1 < i")
        case True
        then have "nat (i - ?t - 1) = Suc (nat (i - (?t + 1) - 1))" by arith
        with True show ?thesis by simp
      next
        case False
        then show ?thesis by (cases "i = ?t + 1") auto
      qed
    qed
    then show ?thesis
      unfolding stacked_def s1 by (simp add: add.assoc cong: if_cong)
  qed
  finally show ?case by simp
qed


lemma pop_nonempty:
  "parameterStackTop s \<noteq> - 1 \<Longrightarrow>
   pop s = (parameterStack s (parameterStackTop s), s\<lparr>parameterStackTop := parameterStackTop s - 1\<rparr>)"
  by (simp add: pop_def)

lemma sendResponseCount_loop_pops:
  "nat (c - i) = n \<Longrightarrow> i \<le> c \<Longrightarrow> c - i \<le> parameterStackTop s + 1 \<Longrightarrow>
   sendResponseCount_loop i c acc s =
     (acc @ map (\<lambda>k. parameterStack s (parameterStackTop s - int k)) [0..<n],
      s\<lparr>parameterStackTop := parameterStackTop s - (c - i)\<rparr>)"
proof (induction n arbitrary: i acc s)
  case 0
  then have "i = c" by simp
  then show ?case by (simp add: sendResponseCount_loop.simps)
next
  case (Suc n)
  let ?s' = "s\<lparr>parameterStackTop := parameterStackTop s - 1\<rparr>"
  let ?v = "parameterStack s (parameterStackTop s)"
  from Suc.prems have lt: "i < c" and ne: "parameterStackTop s \<noteq> - 1" by auto
  have "sendResponseCount_loop i c acc s = sendResponseCount_loop (i + 1) c (acc @ [?v]) ?s'"
    using lt by (subst sendResponseCount_loop.simps) (simp add: pop_nonempty [OF ne])
  also have "\<dots> = ((acc @ [?v]) @ map (\<lambda>k. parameterStack ?s' (parameterStackTop ?s' - int k)) [0..<n],
      ?s'\<lparr>parameterStackTop := parameterStackTop ?s' - (c - (i + 1))\<rparr>)"
    using Suc.prems by (intro Suc.IH) auto
  also have "\<dots> = (acc @ map (\<lambda>k. parameterStack s (parameterStackTop s - int k)) [0..<Suc n],
      s\<lparr>parameterStackTop := parameterStackTop s - (c - i)\<rparr>)"
    by (simp add: map_upt_Suc del: upt_Suc) (simp add: algebra_simps)
  finally show ?case .
qed


lemma pushes_other [simp]:
  "interfaceIds (pushes bs s) = interfaceIds s"
  "interfaceStart (pushes bs s) = interfaceStart s"
  "indexOfInterfaces (pushes bs s) = indexOfInterfaces s"
  "callerSequence (pushes bs s) = callerSequence s"
  by (induction bs arbitrary: s) simp_all

lemma queryInterface_chars_pushes:
  "queryInterface_chars index 4 s = pushes (rev (idChars (interfaceIds s index))) s"
proof -
  have "[0..<5::nat] = [0, 1, 2, 3, 4]" by (simp add: upt_rec)
  then show ?thesis by (simp add: queryInterface_chars.simps idChars_def)
qed

lemma entryPushes_pushes [simp]: "entryPushes (pushes bs s) = entryPushes s"
  by (rule ext) (simp add: entryPushes_def)

lemma queryInterface_loop_pushes:
  "queryInterface_loop index s =
     pushes (concat (map (entryPushes s) [index..<unat (indexOfInterfaces s)])) s"
proof (induction index s rule: queryInterface_loop.induct)
  case (1 index s)
  show ?case
  proof (cases "index < unat (indexOfInterfaces s)")
    case False
    then show ?thesis by (simp add: queryInterface_loop.simps)
  next
    case True
    let ?s1 = "queryInterface_chars index 4 s"
    let ?s2 = "push (interfaceStart ?s1 index) ?s1"
    have s2: "?s2 = pushes (entryPushes s index) s"
      by (simp add: queryInterface_chars_pushes entryPushes_def pushes_append)
    have "queryInterface_loop index s = queryInterface_loop (index + 1) ?s2"
      using True by (subst queryInterface_loop.simps) (simp add: Let_def)
    also have "\<dots> = pushes (concat (map (entryPushes ?s2) [index + 1..<unat (indexOfInterfaces ?s2)])) ?s2"
      using True by (intro "1.IH") simp_all
    also have "\<dots> = pushes (concat (map (entryPushes s) [index + 1..<unat (indexOfInterfaces s)]))
                        (pushes (entryPushes s index) s)"
      by (simp only: s2) simp
    also have "\<dots> = pushes (concat (map (entryPushes s) [index..<unat (indexOfInterfaces s)])) s"
      using True by (simp add: upt_conv_Cons pushes_append)
    finally show ?thesis .
  qed
qed


lemma unat_times6: "unat (nb :: byte) \<le> 21 \<Longrightarrow> unat (6 * nb) = 6 * unat nb"
proof -
  assume "unat nb \<le> 21"
  then have "unat (6 :: byte) * unat nb < 2 ^ LENGTH(8)" by simp
  then have "unat (6 * nb) = unat (6 :: byte) * unat nb" by (simp only: unat_mult_lem)
  then show ?thesis by simp
qed

lemma uint_le_unat: "unat (x :: byte) \<le> n \<Longrightarrow> uint x \<le> int n"
proof -
  assume a: "unat x \<le> n"
  have "uint x = int (unat x)" by simp
  with a show ?thesis by linarith
qed

lemma sint_small: "unat (x :: byte) < 128 \<Longrightarrow> sint x = int (unat x)"
proof -
  assume a: "unat x < 128"
  have u: "uint x = int (unat x)" by simp
  have lt: "uint x < 128" "- 128 \<le> uint x" using a u by linarith+
  have "sint x = signed_take_bit 7 (uint x)" by (simp add: sint_uint)
  also have "\<dots> = uint x"
    by (rule signed_take_bit_int_eq_self) (use lt in simp_all)
  finally show ?thesis by simp
qed

lemma length_idChars [simp]: "length (idChars str) = 5"
  by (simp add: idChars_def)

lemma length_entries:
  "length (concat (map (entryPushes s) [i..<n])) = 6 * (n - i)"
  by (induction n) (simp_all add: entryPushes_def Suc_diff_le)

lemma rev_entries:
  "rev (concat (map (entryPushes s) [0..<n])) = concat (map (entryBytes s) (rev [0..<n]))"
  by (induction n) (simp_all add: entryPushes_def entryBytes_def)

lemma drain:
  assumes top: "parameterStackTop s = - 1" and len: "length L \<le> 127"
    and c: "sint c = int (length L)"
  shows "sent (sendResponseCount response (push c (pushes L s))) =
           sent s @ [SendFrame ([response, callerSequence s, c] @ rev L) (3 + c)]"
    and "parameterStackTop (sendResponseCount response (push c (pushes L s))) = - 1"
proof -
  let ?m = "int (length L)"
  let ?s1 = "stacked L s"
  have s1: "pushes L s = ?s1"
    using top len by (intro pushes_stacked) simp
  have top1: "parameterStackTop ?s1 = ?m - 1"
    by (simp add: stacked_def top)
  let ?s2 = "push c ?s1"
  have s2: "?s2 = ?s1\<lparr>parameterStackTop := ?m,
                        parameterStack := (parameterStack ?s1)(?m := c)\<rparr>"
    using len by (subst push_room) (simp_all add: top1)
  let ?s3 = "?s1\<lparr>parameterStack := (parameterStack ?s1)(?m := c)\<rparr>"
  have pop2: "pop ?s2 = (c, ?s3)"
    by (simp add: s2 pop_def top1)
  have top3: "parameterStackTop ?s3 = ?m - 1" by (simp add: top1)
  have loop: "sendResponseCount_loop 0 ?m [] ?s3 =
      ([] @ map (\<lambda>k. parameterStack ?s3 (parameterStackTop ?s3 - int k)) [0..<length L],
       ?s3\<lparr>parameterStackTop := parameterStackTop ?s3 - (?m - 0)\<rparr>)"
    by (rule sendResponseCount_loop_pops) (simp_all add: top3)
  have cell: "parameterStack ?s3 (parameterStackTop ?s3 - int k) = rev L ! k" if "k < length L" for k
  proof -
    have "nat (?m - 1 - int k - (- 1) - 1) = length L - 1 - k"
      using that by arith
    then have "parameterStack ?s3 (parameterStackTop ?s3 - int k) = L ! (length L - 1 - k)"
      using that by (simp add: top3) (simp add: stacked_def top)
    also have "\<dots> = rev L ! k"
      using that by (simp add: rev_nth)
    finally show ?thesis .
  qed
  define f where "f = (\<lambda>k. parameterStack ?s3 (parameterStackTop ?s3 - int k))"
  have "f k = rev L ! k" if "k < length L" for k
    using cell [OF that] by (simp only: f_def)
  then have "map f [0..<length L] = rev L"
    by (intro nth_equalityI) simp_all
  then have payload: "map (\<lambda>k. parameterStack ?s3 (parameterStackTop ?s3 - int k)) [0..<length L] = rev L"
    by (simp only: f_def)
  have q: "sendResponseCount response (push c (pushes L s)) =
      sendFrame ([response, callerSequence ?s3, c] @ rev L) (3 + c)
                       (?s3\<lparr>parameterStackTop := parameterStackTop ?s3 - (?m - 0)\<rparr>)"
    by (simp only: sendResponseCount_def s1 pop2 Let_def prod.case c loop append_Nil payload) simp
  show "sent (sendResponseCount response (push c (pushes L s))) =
           sent s @ [SendFrame ([response, callerSequence s, c] @ rev L) (3 + c)]"
    unfolding q by (simp add: sendFrame_def stacked_def)
  show "parameterStackTop (sendResponseCount response (push c (pushes L s))) = - 1"
    unfolding q by (simp add: sendFrame_def top1)
qed

lemma queryInterface_result:
  assumes top: "parameterStackTop s = - 1" and n: "unat (indexOfInterfaces s) \<le> 21"
  shows "sent (queryInterface response s) =
           sent s @ [SendFrame ([response, callerSequence s, 6 * indexOfInterfaces s] @
                       concat (map (entryBytes s) (rev [0..<unat (indexOfInterfaces s)])))
                     (3 + 6 * indexOfInterfaces s)]"
    and "parameterStackTop (queryInterface response s) = - 1"
proof -
  let ?n = "unat (indexOfInterfaces s)"
  let ?L = "concat (map (entryPushes s) [0..<?n])"
  let ?c = "6 * indexOfInterfaces s"
  have len: "length ?L = 6 * ?n" by (simp add: length_entries)
  have le: "length ?L \<le> 127" using n unfolding len by linarith
  have "unat ?c = 6 * ?n" using n by (rule unat_times6)
  moreover from this have "unat ?c < 128" using n by linarith
  ultimately have sc: "sint ?c = int (length ?L)"
    unfolding len by (simp only: sint_small)
  have q: "queryInterface response s = sendResponseCount response (push ?c (pushes ?L s))"
    by (simp add: queryInterface_def queryInterface_loop_pushes Let_def)
  show "sent (queryInterface response s) =
           sent s @ [SendFrame ([response, callerSequence s, ?c] @
                       concat (map (entryBytes s) (rev [0..<?n]))) (3 + ?c)]"
    unfolding q drain(1) [OF top le sc] by (simp only: rev_entries)
  show "parameterStackTop (queryInterface response s) = - 1"
    unfolding q by (rule drain(2) [OF top le sc])
qed

section \<open>Stack underflow\<close>

text \<open>
  C9. \<open>pop\<close> on an empty stack (top index \<open>-1\<close>) signals one \<open>STACK_UNDERFLOW\<close>, returns
  the sentinel \<open>-1\<close> and leaves the top index at \<open>-1\<close>: the state changes in nothing but
  the one error sent. \<open>pop16\<close> with fewer than two stored values (top index \<open>-1\<close> or 0)
  does the same and leaves the top index as it was.
\<close>

theorem underflow_sentinel:
  "(parameterStackTop s = - 1 \<longrightarrow>
      pop s = (- 1, s\<lparr>sent := sent s @ [SendError FUNCTIONS_ERROR_STACK_UNDERFLOW]\<rparr>)) \<and>
   (- 1 \<le> parameterStackTop s \<and> parameterStackTop s + 1 < 2 \<longrightarrow>
      pop16 s = (- 1, s\<lparr>sent := sent s @ [SendError FUNCTIONS_ERROR_STACK_UNDERFLOW]\<rparr>))"
proof (intro conjI impI)
  assume "parameterStackTop s = - 1"
  then show "pop s = (- 1, s\<lparr>sent := sent s @ [SendError FUNCTIONS_ERROR_STACK_UNDERFLOW]\<rparr>)"
    by (simp add: pop_def sendError_def)
next
  assume "- 1 \<le> parameterStackTop s \<and> parameterStackTop s + 1 < 2"
  then have "parameterStackTop s = - 1 \<or> parameterStackTop s = 0" by arith
  then show "pop16 s = (- 1, s\<lparr>sent := sent s @ [SendError FUNCTIONS_ERROR_STACK_UNDERFLOW]\<rparr>)"
    by (simp add: pop16_def sendError_def)
qed

text \<open>The empty stack at start, and the stack holding the single byte 7.\<close>

theorem underflow_sentinel_witness:
  "pop (init (\<lambda>_. 0)) =
     (- 1, (init (\<lambda>_. 0))\<lparr>sent := [SendError FUNCTIONS_ERROR_STACK_UNDERFLOW]\<rparr>) \<and>
   parameterStackTop (snd (pop (init (\<lambda>_. 0)))) = - 1 \<and>
   parameterStackTop (push 7 (init (\<lambda>_. 0))) = 0 \<and>
   pop16 (push 7 (init (\<lambda>_. 0))) =
     (- 1, (push 7 (init (\<lambda>_. 0)))\<lparr>sent := [SendError FUNCTIONS_ERROR_STACK_UNDERFLOW]\<rparr>)"
  using underflow_sentinel [of "init (\<lambda>_. 0)"] underflow_sentinel [of "push 7 (init (\<lambda>_. 0))"]
  by (simp add: init_def push_def parameterStackMax_def)

section \<open>Binding into an occupied slot\<close>

lemma conflict_ex_fields:
  "vtable conflict_ex 4 = Some (Native 0)"
  "openFunctionIndex conflict_ex = 4" "sent conflict_ex = []"
  "indexOfInterfaces conflict_ex = 1" "parameterStackTop conflict_ex = - 1"
  "callerSequence conflict_ex = 0" "interfaceIds conflict_ex 0 = ''AAAA1''"
  "interfaceStart conflict_ex 0 = 4"
  "\<not> knownInterface conflict_ex ''BBBB1''"
  by (simp_all add: conflict_ex_def bind_def Let_def init_def knownInterface_def knownInterface_loop.simps)

text \<open>
  C5. When \<open>bind\<close> finds the slot \<open>vtable[openFunctionIndex]\<close> occupied, it sends exactly
  one \<open>FUNCTION_CONFLICT\<close>, leaves the whole table as it was (the old function stays, the
  new one is not installed), returns the id \<open>openFunctionIndex\<close> and moves
  \<open>openFunctionIndex\<close> on by one.
\<close>

theorem bind_conflict:
  assumes "vtable s (unat (openFunctionIndex s)) = Some g"
  shows "fst (bind interfaceId function s) = openFunctionIndex s \<and>
         sent (snd (bind interfaceId function s)) =
           sent s @ [SendError FUNCTIONS_ERROR_FUNCTION_CONFLICT] \<and>
         vtable (snd (bind interfaceId function s)) = vtable s \<and>
         openFunctionIndex (snd (bind interfaceId function s)) = openFunctionIndex s + 1"
  using assms by (simp add: bind_def Let_def sendError_def)

theorem bind_conflict_witness:
  "vtable conflict_ex (unat (openFunctionIndex conflict_ex)) = Some (Native 0) \<and>
   fst (bind ''AAAA1'' (Some (Native 1)) conflict_ex) = 4 \<and>
   sent (snd (bind ''AAAA1'' (Some (Native 1)) conflict_ex)) =
     [SendError FUNCTIONS_ERROR_FUNCTION_CONFLICT] \<and>
   vtable (snd (bind ''AAAA1'' (Some (Native 1)) conflict_ex)) 4 = Some (Native 0) \<and>
   openFunctionIndex (snd (bind ''AAAA1'' (Some (Native 1)) conflict_ex)) = 5"
proof -
  have h: "vtable conflict_ex (unat (openFunctionIndex conflict_ex)) = Some (Native 0)"
    by (simp add: conflict_ex_fields)
  from bind_conflict [OF h, of "''AAAA1''" "Some (Native 1)"] h show ?thesis
    by (simp add: conflict_ex_fields)
qed

section \<open>The response of \<open>queryInterface\<close>\<close>

lemma two_interfaces_fields:
  "indexOfInterfaces two_interfaces = 2" "interfaceIds two_interfaces 0 = ''AAAA1''"
  "interfaceIds two_interfaces (Suc 0) = ''BBBB1''"
  "interfaceStart two_interfaces 0 = 4" "interfaceStart two_interfaces (Suc 0) = 6"
  "parameterStackTop two_interfaces = - 1"
  "sent two_interfaces = []" "callerSequence two_interfaces = 0"
  "openFunctionIndex two_interfaces = 7"
  by (simp_all add: two_interfaces_def bind_def knownInterface_def knownInterface_loop.simps init_def Let_def)

lemma five: "[0..<5] = [0, 1, 2, 3, 4]"
  by (simp add: upt_rec)

lemma two: "[0..<2] = [0, 1]"
  by (simp add: upt_rec)

lemma two_interfaces_response:
  "sent (queryInterface response two_interfaces) =
     [SendFrame ([response, 0, 12, 6] @ map of_char ''BBBB1'' @ [4] @ map of_char ''AAAA1'') 15]"
  using queryInterface_result(1) [of two_interfaces response]
  by (simp add: two_interfaces_fields entryBytes_def idChars_def charAt_def five two)

text \<open>
  C4, as the code has it. Called with an empty parameter stack and at most 21 registered
  interfaces (so that the \<open>6 * n + 1\<close> pushed bytes fit the stack), \<open>queryInterface\<close> sends
  one frame \<open>[FUNCTIONS_RESPONSE, callerSequence, 6 * n, payload...]\<close> of size \<open>3 + 6 * n\<close>.
  The payload lists the interfaces from the last registered to the first, each as its
  start index followed by the five characters of its id. After the binds of
  \<open>two_interfaces\<close> the payload is 6, \<open>BBBB1\<close>, 4, \<open>AAAA1\<close> and the declared length is 12.
\<close>

theorem queryInterface_payload:
  "(parameterStackTop s = - 1 \<and> unat (indexOfInterfaces s) \<le> 21 \<longrightarrow>
      sent (queryInterface response s) =
        sent s @ [SendFrame
          ([response, callerSequence s, (5 + 1) * indexOfInterfaces s] @
           concat (map (\<lambda>i. interfaceStart s i # map (charAt (interfaceIds s i)) [0..<5])
                       (rev [0..<unat (indexOfInterfaces s)])))
          (3 + (5 + 1) * indexOfInterfaces s)]) \<and>
   sent (queryInterface response two_interfaces) =
     [SendFrame ([response, 0, 12, 6] @ map of_char ''BBBB1'' @ [4] @ map of_char ''AAAA1'') 15]"
proof (intro conjI impI)
  assume a: "parameterStackTop s = - 1 \<and> unat (indexOfInterfaces s) \<le> 21"
  have e: "entryBytes s = (\<lambda>i. interfaceStart s i # map (charAt (interfaceIds s i)) [0..<5])"
    by (rule ext) (simp add: entryBytes_def idChars_def)
  from a have "parameterStackTop s = - 1" and "unat (indexOfInterfaces s) \<le> 21" by simp_all
  from queryInterface_result(1) [OF this, of response]
  show "sent (queryInterface response s) =
        sent s @ [SendFrame
          ([response, callerSequence s, (5 + 1) * indexOfInterfaces s] @
           concat (map (\<lambda>i. interfaceStart s i # map (charAt (interfaceIds s i)) [0..<5])
                       (rev [0..<unat (indexOfInterfaces s)])))
          (3 + (5 + 1) * indexOfInterfaces s)]"
    unfolding e by simp
qed (rule two_interfaces_response)

text \<open>The registry with the single interface \<open>AAAA1\<close> at 4, and \<open>0x7C\<close> for the response tag.\<close>

theorem queryInterface_payload_witness:
  "parameterStackTop conflict_ex = - 1 \<and> unat (indexOfInterfaces conflict_ex) = 1 \<and>
   sent (queryInterface 0x7C conflict_ex) = [SendFrame [0x7C, 0, 6, 4, 65, 65, 65, 65, 49] 9]"
  using queryInterface_payload [of conflict_ex "0x7C"]
  by (simp add: conflict_ex_fields charAt_def five)

text \<open>
  The payload in registration order, id before start index, is not what is sent: the
  frame sent after the binds of \<open>two_interfaces\<close> carries 6, \<open>BBBB1\<close>, 4, \<open>AAAA1\<close>
  (\<open>A\<close> is 65, \<open>B\<close> is 66, \<open>1\<close> is 49).
\<close>

theorem queryInterface_order_counterexample:
  "sent (queryInterface 0x7C two_interfaces) =
     [SendFrame [0x7C, 0, 12, 6, 66, 66, 66, 66, 49, 4, 65, 65, 65, 65, 49] 15] \<and>
   [6, 66, 66, 66, 66, 49, 4, 65, 65, 65, 65, 49] \<noteq>
     map of_char ''AAAA1'' @ [4] @ map of_char ''BBBB1'' @ [6 :: byte]"
  by (simp add: two_interfaces_response)

section \<open>A conflicting bind still registers its interface\<close>

lemma unat_succ: "unat (nb :: byte) < 21 \<Longrightarrow> unat (nb + 1) = Suc (unat nb)"
proof -
  assume "unat nb < 21"
  then have "unat nb + unat (1 :: byte) < 2 ^ LENGTH(8)" by simp
  then have "unat (nb + 1) = unat nb + unat (1 :: byte)" by (simp only: unat_add_lem)
  then show ?thesis by simp
qed

text \<open>
  C10. When \<open>bind\<close> is called with an interface id not yet registered and the slot
  \<open>vtable[openFunctionIndex]\<close> is occupied, the new entry (the id, with start index the
  conflicting \<open>openFunctionIndex\<close>) is still appended to the registry and stays there:
  the count goes up by one, the slot keeps the old function, one \<open>FUNCTION_CONFLICT\<close> is
  sent, and a following \<open>queryInterface\<close> (empty stack, room for the entry) advertises
  the new interface first, with that start index.
\<close>

theorem bind_conflict_registers:
  assumes new: "\<not> knownInterface s interfaceId"
    and occ: "vtable s (unat (openFunctionIndex s)) = Some g"
  shows "interfaceIds (snd (bind interfaceId function s)) (unat (indexOfInterfaces s)) = interfaceId \<and>
         interfaceStart (snd (bind interfaceId function s)) (unat (indexOfInterfaces s)) = openFunctionIndex s \<and>
         indexOfInterfaces (snd (bind interfaceId function s)) = indexOfInterfaces s + 1 \<and>
         vtable (snd (bind interfaceId function s)) (unat (openFunctionIndex s)) = Some g \<and>
         sent (snd (bind interfaceId function s)) = sent s @ [SendError FUNCTIONS_ERROR_FUNCTION_CONFLICT] \<and>
         (parameterStackTop s = - 1 \<and> unat (indexOfInterfaces s) < 21 \<longrightarrow>
            sent (queryInterface response (snd (bind interfaceId function s))) =
              sent s @ [SendError FUNCTIONS_ERROR_FUNCTION_CONFLICT,
                SendFrame
                  ([response, callerSequence s, (5 + 1) * (indexOfInterfaces s + 1), openFunctionIndex s] @
                   map (charAt interfaceId) [0..<5] @
                   concat (map (\<lambda>i. interfaceStart s i # map (charAt (interfaceIds s i)) [0..<5])
                               (rev [0..<unat (indexOfInterfaces s)])))
                  (3 + (5 + 1) * (indexOfInterfaces s + 1))])"
proof -
  let ?n = "unat (indexOfInterfaces s)"
  let ?s' = "snd (bind interfaceId function s)"
  have s': "?s' = s\<lparr>interfaceIds := (interfaceIds s)(?n := interfaceId),
                     interfaceStart := (interfaceStart s)(?n := openFunctionIndex s),
                     indexOfInterfaces := indexOfInterfaces s + 1,
                     sent := sent s @ [SendError FUNCTIONS_ERROR_FUNCTION_CONFLICT],
                     openFunctionIndex := openFunctionIndex s + 1\<rparr>"
    using new occ by (simp add: bind_def Let_def sendError_def)
  have q: "sent (queryInterface response ?s') =
              sent s @ [SendError FUNCTIONS_ERROR_FUNCTION_CONFLICT,
                SendFrame
                  ([response, callerSequence s, (5 + 1) * (indexOfInterfaces s + 1), openFunctionIndex s] @
                   map (charAt interfaceId) [0..<5] @
                   concat (map (\<lambda>i. interfaceStart s i # map (charAt (interfaceIds s i)) [0..<5])
                               (rev [0..<?n])))
                  (3 + (5 + 1) * (indexOfInterfaces s + 1))]"
    if top: "parameterStackTop s = - 1" and n: "?n < 21"
  proof -
    have n': "unat (indexOfInterfaces ?s') = Suc ?n"
      using n by (simp add: s' unat_succ)
    have top': "parameterStackTop ?s' = - 1" by (simp add: s' top)
    have le: "unat (indexOfInterfaces ?s') \<le> 21" using n n' by simp
    have old: "map (entryBytes ?s') (rev [0..<?n]) =
               map (\<lambda>i. interfaceStart s i # map (charAt (interfaceIds s i)) [0..<5]) (rev [0..<?n])"
      by (rule map_cong) (auto simp: s' entryBytes_def idChars_def)
    have new: "entryBytes ?s' ?n = openFunctionIndex s # map (charAt interfaceId) [0..<5]"
      by (simp add: s' entryBytes_def idChars_def)
    have "concat (map (entryBytes ?s') (rev [0..<Suc ?n])) =
          entryBytes ?s' ?n @ concat (map (entryBytes ?s') (rev [0..<?n]))"
      by simp
    also have "\<dots> = openFunctionIndex s # map (charAt interfaceId) [0..<5] @
          concat (map (\<lambda>i. interfaceStart s i # map (charAt (interfaceIds s i)) [0..<5]) (rev [0..<?n]))"
      unfolding old new by simp
    finally have "concat (map (entryBytes ?s') (rev [0..<Suc ?n])) =
          openFunctionIndex s # map (charAt interfaceId) [0..<5] @
          concat (map (\<lambda>i. interfaceStart s i # map (charAt (interfaceIds s i)) [0..<5]) (rev [0..<?n]))" .
    with queryInterface_result(1) [OF top' le, of response] show ?thesis
      unfolding n' by (simp add: s')
  qed
  show ?thesis
    using q occ by (simp add: s')
qed


text \<open>Binding \<open>BBBB1\<close> while slot 4 holds the function bound for \<open>AAAA1\<close>.\<close>

theorem bind_conflict_registers_witness:
  "\<not> knownInterface conflict_ex ''BBBB1'' \<and>
   vtable conflict_ex (unat (openFunctionIndex conflict_ex)) = Some (Native 0) \<and>
   interfaceIds (snd (bind ''BBBB1'' (Some (Native 1)) conflict_ex)) 1 = ''BBBB1'' \<and>
   interfaceStart (snd (bind ''BBBB1'' (Some (Native 1)) conflict_ex)) 1 = 4 \<and>
   indexOfInterfaces (snd (bind ''BBBB1'' (Some (Native 1)) conflict_ex)) = 2 \<and>
   vtable (snd (bind ''BBBB1'' (Some (Native 1)) conflict_ex)) 4 = Some (Native 0) \<and>
   sent (queryInterface 0x7C (snd (bind ''BBBB1'' (Some (Native 1)) conflict_ex))) =
     [SendError FUNCTIONS_ERROR_FUNCTION_CONFLICT,
      SendFrame [0x7C, 0, 12, 4, 66, 66, 66, 66, 49, 4, 65, 65, 65, 65, 49] 15]"
proof -
  have new: "\<not> knownInterface conflict_ex ''BBBB1''"
    by (simp add: conflict_ex_fields)
  have occ: "vtable conflict_ex (unat (openFunctionIndex conflict_ex)) = Some (Native 0)"
    by (simp add: conflict_ex_fields)
  from bind_conflict_registers [OF new occ, of "Some (Native 1)" "0x7C"] new occ show ?thesis
    by (simp add: conflict_ex_fields charAt_def five)
qed

section \<open>Stack overflow\<close>

lemma pushes_init:
  "length bs \<le> 129 \<Longrightarrow>
   pushes bs (init m) = (init m)\<lparr>parameterStackTop := int (length bs) - 1,
     parameterStack := (\<lambda>i. if - 1 < i \<and> i \<le> int (length bs) - 1 then bs ! nat i else 0)\<rparr>"
proof -
  assume a: "length bs \<le> 129"
  have top: "parameterStackTop (init m) = - 1" by (simp add: init_def)
  have "pushes bs (init m) = stacked bs (init m)"
    using a by (intro pushes_stacked) (simp add: top)
  also have "\<dots> = (init m)\<lparr>parameterStackTop := int (length bs) - 1,
     parameterStack := (\<lambda>i. if - 1 < i \<and> i \<le> int (length bs) - 1 then bs ! nat i else 0)\<rparr>"
    by (simp add: stacked_def init_def cong: if_cong)
  finally show ?thesis .
qed

text \<open>
  C3, as the code has it. The stack has 129 cells and \<open>push\<close> refuses only when the top
  index is already 128. From an empty stack (top index \<open>-1\<close>), 129 consecutive pushes
  all store their byte and send nothing; the 130th push sends the one \<open>STACK_OVERFLOW\<close>
  and leaves the stack contents and the top index as they were.
\<close>

theorem overflow_on_130th_push:
  assumes empty: "parameterStackTop s = - 1" and len: "length bs = 129"
  shows "sent (pushes bs s) = sent s \<and>
         parameterStackTop (pushes bs s) = 128 \<and>
         (\<forall>i<129. parameterStack (pushes bs s) (int i) = bs ! i) \<and>
         push b (pushes bs s) =
           (pushes bs s)\<lparr>sent := sent s @ [SendError FUNCTIONS_ERROR_STACK_OVERFLOW]\<rparr> \<and>
         sent (pushes (bs @ [b]) s) = sent s @ [SendError FUNCTIONS_ERROR_STACK_OVERFLOW]"
proof -
  have p: "pushes bs s = stacked bs s"
    using empty len by (intro pushes_stacked) simp
  have top: "parameterStackTop (stacked bs s) = 128" and snt: "sent (stacked bs s) = sent s"
    by (simp_all add: stacked_def empty len)
  have cells: "parameterStack (stacked bs s) (int i) = bs ! i" if "i < 129" for i
    using that by (simp add: stacked_def empty len)
  have over: "push b (stacked bs s) =
      (stacked bs s)\<lparr>sent := sent s @ [SendError FUNCTIONS_ERROR_STACK_OVERFLOW]\<rparr>"
    by (simp add: push_def parameterStackMax_def sendError_def top snt)
  show ?thesis
    unfolding pushes_append p by (simp add: top snt cells over del: stacked_def)
qed

text \<open>129 pushes of the byte 5, then a push of 7.\<close>

theorem overflow_on_130th_push_witness:
  "parameterStackTop (init (\<lambda>_. 0)) = - 1 \<and>
   length (replicate 129 (5 :: byte)) = 129 \<and>
   sent (pushes (replicate 129 5) (init (\<lambda>_. 0))) = [] \<and>
   parameterStackTop (pushes (replicate 129 5) (init (\<lambda>_. 0))) = 128 \<and>
   parameterStack (pushes (replicate 129 5) (init (\<lambda>_. 0))) 128 = 5 \<and>
   parameterStackTop (push 7 (pushes (replicate 129 5) (init (\<lambda>_. 0)))) = 128 \<and>
   parameterStack (push 7 (pushes (replicate 129 5) (init (\<lambda>_. 0)))) 128 = 5 \<and>
   sent (pushes (replicate 129 5 @ [7]) (init (\<lambda>_. 0))) = [SendError FUNCTIONS_ERROR_STACK_OVERFLOW]"
proof -
  have e: "parameterStackTop (init (\<lambda>_. 0)) = - 1" "sent (init (\<lambda>_. 0)) = []"
    by (simp_all add: init_def)
  have l: "length (replicate 129 (5 :: byte)) = 129" by simp
  note t = overflow_on_130th_push [OF e(1) l, of 7]
  from t have "\<forall>i<129. parameterStack (pushes (replicate 129 5) (init (\<lambda>_. 0))) (int i) =
      replicate 129 (5 :: byte) ! i"
    by blast
  then have "128 < (129 :: nat) \<longrightarrow>
      parameterStack (pushes (replicate 129 5) (init (\<lambda>_. 0))) (int 128) = replicate 129 (5 :: byte) ! 128"
    by (rule spec)
  then have c: "parameterStack (pushes (replicate 129 5) (init (\<lambda>_. 0))) 128 = 5"
    by simp
  from t c e show ?thesis
    by simp
qed

text \<open>
  129 pushes from the empty stack send no error, and the 129th push moves the top index
  from 127 to 128.
\<close>

theorem overflow_on_129th_push_counterexample:
  "sent (pushes (replicate 129 0) (init (\<lambda>_. 0))) = [] \<and>
   parameterStackTop (pushes (replicate 128 0) (init (\<lambda>_. 0))) = 127 \<and>
   parameterStackTop (pushes (replicate 129 0) (init (\<lambda>_. 0))) = 128"
  by (simp add: pushes_init) (simp add: init_def)

section \<open>Push followed by pop\<close>

lemma bit_0xFF: "bit (0xFF :: 'a::len word) n \<longleftrightarrow> n < 8 \<and> n < LENGTH('a)"
proof -
  have m: "(0xFF :: 'a word) = mask 8" by (simp add: mask_eq_exp_minus_1)
  show ?thesis unfolding m bit_mask_iff by auto
qed

lemma bit_low_byte:
  "\<not> bit (w :: int16) 7 \<Longrightarrow>
   bit (scast (ucast (w AND 0xFF) :: byte) :: int16) n \<longleftrightarrow> n < 8 \<and> bit w n"
  unfolding bit_word_scast_iff bit_word_ucast_iff bit_and_iff bit_0xFF by auto

lemma bit_high_byte:
  "bit (push_bit 8 (scast (ucast (signed_drop_bit 8 (w :: int16)) :: byte)) :: int16) n
     \<longleftrightarrow> 8 \<le> n \<and> n < 16 \<and> bit w n"
  by (auto simp add: bit_push_bit_iff bit_word_scast_iff bit_word_ucast_iff bit_signed_drop_bit_iff)

lemma bytes_roundtrip:
  assumes b7: "\<not> bit (w :: int16) 7"
  shows "scast (ucast (w AND 0xFF) :: byte)
           + push_bit 8 (scast (ucast (signed_drop_bit 8 w) :: byte)) = w"
proof -
  let ?lo = "scast (ucast (w AND 0xFF) :: byte) :: int16"
  let ?hi = "push_bit 8 (scast (ucast (signed_drop_bit 8 w) :: byte)) :: int16"
  have "?lo + ?hi = ?lo OR ?hi"
    by (rule disjunctive_add) (auto simp only: bit_low_byte [OF b7] bit_high_byte)
  also have "\<dots> = w"
    by (rule bit_eqI)
      (auto simp: bit_or_iff bit_low_byte [OF b7] bit_high_byte simp del: bit_push_bit_iff
            dest: bit_imp_le_length)
  finally show ?thesis .
qed

text \<open>
  C2, as the code has it. On a stack that is not full (top index from \<open>-1\<close> to 127),
  \<open>push b\<close> followed by \<open>pop\<close> returns \<open>b\<close>. On a stack with two free cells,
  \<open>push16 x\<close> followed by \<open>pop16\<close> returns \<open>x\<close> for every 16-bit \<open>x\<close> whose low byte
  is below \<open>0x80\<close> (bit 7 of \<open>x\<close> clear). In both cases the top index is back where it
  was and nothing is sent.
\<close>

theorem push_pop_roundtrip:
  "(- 1 \<le> parameterStackTop s \<and> parameterStackTop s < 128 \<longrightarrow>
      fst (pop (push b s)) = b \<and>
      parameterStackTop (snd (pop (push b s))) = parameterStackTop s \<and>
      sent (snd (pop (push b s))) = sent s) \<and>
   (- 1 \<le> parameterStackTop s \<and> parameterStackTop s + 2 \<le> 128 \<and> \<not> bit x 7 \<longrightarrow>
      fst (pop16 (push16 x s)) = x \<and>
      parameterStackTop (snd (pop16 (push16 x s))) = parameterStackTop s \<and>
      sent (snd (pop16 (push16 x s))) = sent s)"
proof (intro conjI impI)
  assume a: "- 1 \<le> parameterStackTop s \<and> parameterStackTop s < 128"
  then show "fst (pop (push b s)) = b"
    and "parameterStackTop (snd (pop (push b s))) = parameterStackTop s"
    and "sent (snd (pop (push b s))) = sent s"
    by (simp_all add: push_def pop_def parameterStackMax_def)
next
  assume a: "- 1 \<le> parameterStackTop s \<and> parameterStackTop s + 2 \<le> 128 \<and> \<not> bit x 7"
  then have b7: "\<not> bit x 7" by simp
  from a have p: "push16 x s = s\<lparr>parameterStackTop := parameterStackTop s + 2,
             parameterStack := (parameterStack s)
               (parameterStackTop s + 1 := ucast (signed_drop_bit 8 x),
                parameterStackTop s + 2 := ucast (x AND 0xFF))\<rparr>"
    by (simp add: push16_def parameterStackMax_def)
  from a have ne: "parameterStackTop s + 2 \<noteq> - 1" "parameterStackTop s + 2 \<noteq> 0" by auto
  have q: "pop16 (push16 x s) =
      (scast (ucast (x AND 0xFF) :: byte) + push_bit 8 (scast (ucast (signed_drop_bit 8 x) :: byte)),
       (push16 x s)\<lparr>parameterStackTop := parameterStackTop s\<rparr>)"
    unfolding p using ne by (simp add: pop16_def)
  show "fst (pop16 (push16 x s)) = x"
    unfolding q by (simp only: fst_conv bytes_roundtrip [OF b7])
  show "parameterStackTop (snd (pop16 (push16 x s))) = parameterStackTop s"
    unfolding q by simp
  show "sent (snd (pop16 (push16 x s))) = sent s"
    unfolding q snd_conv by (simp add: p)
qed

text \<open>The empty stack at start, with the byte 200 and the words \<open>0x1234\<close> and \<open>-32768\<close>.\<close>

theorem push_pop_roundtrip_witness:
  "fst (pop (push 200 (init (\<lambda>_. 0)))) = 200 \<and>
   fst (pop16 (push16 0x1234 (init (\<lambda>_. 0)))) = 0x1234 \<and>
   fst (pop16 (push16 (- 32768) (init (\<lambda>_. 0)))) = - 32768"
proof -
  have t: "parameterStackTop (init (\<lambda>_. 0)) = - 1" by (simp add: init_def)
  have b: "\<not> bit (0x1234 :: int16) 7" "\<not> bit (- 32768 :: int16) 7"
    by (simp_all add: bit_iff_odd)
  from push_pop_roundtrip [of "init (\<lambda>_. 0)" 200 "0x1234"]
       push_pop_roundtrip [of "init (\<lambda>_. 0)" 200 "- 32768"] t b
  show ?thesis by simp
qed

text \<open>
  On the full stack reached by 129 pushes of 0, \<open>push 7\<close> is dropped and \<open>pop\<close> returns
  the 0 below. On the empty stack, \<open>push16 128\<close> stores the low byte \<open>0x80\<close> in an
  \<open>int8_t\<close> cell; \<open>pop16\<close> reads it back with its sign and returns \<open>-128\<close>.
\<close>

theorem push_pop_roundtrip_counterexample:
  "fst (pop (push 7 (pushes (replicate 129 0) (init (\<lambda>_. 0))))) = 0 \<and>
   fst (pop16 (push16 128 (init (\<lambda>_. 0)))) = - 128 \<and>
   (7 :: byte) \<noteq> 0 \<and> (128 :: int16) \<noteq> - 128"
proof -
  have w: "signed_drop_bit 8 (128 :: int16) = 0" "(128 :: int16) AND 0xFF = 128"
    "scast (128 :: byte) = (- 128 :: int16)"
    by code_simp+
  have "fst (pop (push 7 (pushes (replicate 129 0) (init (\<lambda>_. 0))))) = 0"
    by (simp add: pushes_init) (simp add: push_def pop_def parameterStackMax_def sendError_def init_def)
  moreover have "fst (pop16 (push16 128 (init (\<lambda>_. 0)))) = - 128"
    by (simp add: push16_def pop16_def init_def parameterStackMax_def w)
  ultimately show ?thesis by simp
qed

section \<open>\<open>pushArray\<close> on three inline bytes\<close>

lemma readPush_other [simp]:
  "execution (readPush k s) = execution s"
  "frameTop (readPush k s) = frameTop s"
  "mem (readPush k s) = mem s"
  "reads (readPush k s) = reads s @ [execution s + k]"
  "openFunctionIndex (readPush k s) = openFunctionIndex s"
  "vtable (readPush k s) = vtable s"
  "indexOfInterfaces (readPush k s) = indexOfInterfaces s"
  "interfaceIds (readPush k s) = interfaceIds s"
  "interfaceStart (readPush k s) = interfaceStart s"
  "callerSequence (readPush k s) = callerSequence s"
  "state.more (readPush k s) = state.more s"
  by (simp_all add: readPush_def push_def sendError_def)

lemma readPush_room:
  assumes "parameterStackTop s < 128"
  shows "parameterStackTop (readPush k s) = parameterStackTop s + 1"
    and "parameterStack (readPush k s) =
           (parameterStack s)(parameterStackTop s + 1 := mem s (execution s + k))"
    and "sent (readPush k s) = sent s"
  using assms by (simp_all add: readPush_def push_def parameterStackMax_def)

lemma pushArray_push_3: "pushArray_push 2 s = readPush 0 (readPush 1 (readPush 2 s))"
  by (simp add: pushArray_push.simps readPush_def)

lemma pushArray_advance_3:
  "execution s + 3 \<le> frameTop s \<Longrightarrow> pushArray_advance 0 3 s = s\<lparr>execution := execution s + 3\<rparr>"
  by (simp add: pushArray_advance.simps Let_def)

text \<open>
  C8. \<open>pushArray\<close> called with \<open>execution\<close> at the bytes \<open>3, 0x10, 0x20, 0x30\<close>, all four
  before \<open>frameTop\<close>, and room for three bytes on the stack: the three cells above the
  old top hold \<open>0x30, 0x20, 0x10\<close> from the bottom up, so the stack reads \<open>0x10, 0x20,
  0x30\<close> from the top down; \<open>execution\<close> has moved by 4; nothing is sent and nothing
  else changes.
\<close>

theorem pushArray_three_bytes:
  assumes m0: "mem s (execution s) = 3"
    and m1: "mem s (execution s + 1) = 0x10"
    and m2: "mem s (execution s + 2) = 0x20"
    and m3: "mem s (execution s + 3) = 0x30"
    and inside: "execution s + 4 \<le> frameTop s"
    and room: "parameterStackTop s + 3 \<le> 128"
  shows "pushArray s =
           s\<lparr>execution := execution s + 4,
             reads := reads s @ [execution s, execution s + 3, execution s + 2, execution s + 1],
             parameterStackTop := parameterStackTop s + 3,
             parameterStack := (parameterStack s)
               (parameterStackTop s + 1 := 0x30,
                parameterStackTop s + 2 := 0x20,
                parameterStackTop s + 3 := 0x10)\<rparr>"
proof -
  let ?s2 = "s\<lparr>execution := execution s + 1, reads := reads s @ [execution s]\<rparr>"
  let ?a = "readPush 2 ?s2"
  let ?b = "readPush 1 ?a"
  let ?c = "readPush 0 ?b"
  have ne: "execution s \<noteq> frameTop s" using inside by simp
  have m: "mem s (Suc (Suc (Suc (execution s)))) = 0x30" "mem s (Suc (Suc (execution s))) = 0x20"
    "mem s (Suc (execution s)) = 0x10"
    using m1 m2 m3 by (simp_all add: eval_nat_numeral)
  have k: "2 + parameterStackTop s = parameterStackTop s + 2"
    "3 + parameterStackTop s = parameterStackTop s + 3"
    by simp_all
  have "pushArray s = pushArray_advance 0 3 ?c"
    using ne by (simp add: pushArray_def Let_def m0 pushArray_push_3)
  also have "\<dots> = ?c\<lparr>execution := execution ?c + 3\<rparr>"
    using inside by (intro pushArray_advance_3) simp
  finally have p: "pushArray s = ?c\<lparr>execution := execution ?c + 3\<rparr>" .
  show ?thesis
    unfolding p using room by (intro state.equality) (simp_all add: readPush_room m k)
qed


text \<open>The state \<open>array_ex\<close>, with an empty stack.\<close>

theorem pushArray_three_bytes_witness:
  "mem array_ex (execution array_ex) = 3 \<and>
   mem array_ex (execution array_ex + 1) = 0x10 \<and>
   mem array_ex (execution array_ex + 2) = 0x20 \<and>
   mem array_ex (execution array_ex + 3) = 0x30 \<and>
   execution array_ex + 4 \<le> frameTop array_ex \<and>
   parameterStackTop array_ex + 3 \<le> 128 \<and>
   parameterStackTop (pushArray array_ex) = 2 \<and>
   parameterStack (pushArray array_ex) 2 = 0x10 \<and>
   parameterStack (pushArray array_ex) 1 = 0x20 \<and>
   parameterStack (pushArray array_ex) 0 = 0x30 \<and>
   execution (pushArray array_ex) = execution array_ex + 4 \<and>
   sent (pushArray array_ex) = []"
proof -
  have h: "mem array_ex (execution array_ex) = 3"
    "mem array_ex (execution array_ex + 1) = 0x10"
    "mem array_ex (execution array_ex + 2) = 0x20"
    "mem array_ex (execution array_ex + 3) = 0x30"
    "execution array_ex + 4 \<le> frameTop array_ex"
    "parameterStackTop array_ex + 3 \<le> 128"
    by (simp_all add: array_ex_def init_def)
  have f: "parameterStackTop array_ex = - 1" "sent array_ex = []"
    by (simp_all add: array_ex_def init_def)
  show ?thesis
    unfolding pushArray_three_bytes [OF h] using h by (simp add: f)
qed

section \<open>Reads of \<open>pushArray\<close> beyond the frame\<close>

text \<open>
  C1 fails on the code. The frame \<open>0, 3, 0x10\<close> at addresses 100 to 102 (\<open>frameTop\<close> is
  103) dispatches \<open>pushArray\<close>, whose length byte 3 exceeds the one byte left. The first
  turn of the loop of \<open>frameReceived\<close> reads the addresses 100, 101, then 104, 103 and
  102: the pushes read 103 and 104, outside the frame, before the second loop notices
  anything. \<open>FRAME_TOO_SMALL\<close> is sent only after \<open>execution\<close> has passed \<open>frameTop\<close>,
  and \<open>execution\<close> is left at 104, where the loop condition \<open>execution != frameTop\<close>
  still holds.
\<close>

theorem pushArray_reads_past_frameTop:
  "reads (frameSteps 0x7C (\<lambda>k s. s) 1
            (install 0 3 100 short_ex))
     = [100, 101, 104, 103, 102] \<and>
   sent (frameSteps 0x7C (\<lambda>k s. s) 1
            (install 0 3 100 short_ex))
     = [SendError FUNCTIONS_ERROR_FRAME_TOO_SMALL] \<and>
   execution (frameSteps 0x7C (\<lambda>k s. s) 1
            (install 0 3 100 short_ex))
     = 104 \<and>
   frameTop (frameSteps 0x7C (\<lambda>k s. s) 1
            (install 0 3 100 short_ex))
     = 103"
proof -
  let ?s0 = "install 0 3 100 short_ex"
  let ?s1 = "pushArray (fetch ?s0)"
  have step: "frameSteps 0x7C (\<lambda>k s. s) 1 ?s0 = ?s1"
    by (simp add: dispatchStep_def run_def call_def fetch_def install_def short_ex_def init_def)
  have adv: "pushArray_advance 0 3 s = sendError FUNCTIONS_ERROR_FRAME_TOO_SMALL (s\<lparr>execution := 104\<rparr>)"
    if "execution s = 102" "frameTop s = 103" for s
    using that by (simp add: pushArray_advance.simps Let_def)
  have "?s1 = sendError FUNCTIONS_ERROR_FRAME_TOO_SMALL
               ((readPush 0 (readPush 1 (readPush 2 (short_ex\<lparr>execution := 102, callerSequence := 0,
                    frameTop := 103, reads := [100, 101]\<rparr>))))\<lparr>execution := 104\<rparr>)"
    by (simp add: pushArray_def Let_def fetch_def install_def short_ex_def init_def pushArray_push_3 adv)
  then show ?thesis
    unfolding step by (simp add: sendError_def readPush_room short_ex_def init_def)
qed

section \<open>The counters after a sequence of binds\<close>

lemma knownInterface_loop_iff:
  "knownInterface_loop s interfaceId index \<longleftrightarrow>
     (\<exists>i. index \<le> i \<and> i < unat (indexOfInterfaces s) \<and> interfaceIds s i = interfaceId)"
proof (induction s interfaceId index rule: knownInterface_loop.induct)
  case (1 s interfaceId index)
  show ?case
  proof (cases "index < unat (indexOfInterfaces s)")
    case False
    then show ?thesis by (subst knownInterface_loop.simps) auto
  next
    case True
    show ?thesis
    proof (cases "interfaceIds s index = interfaceId")
      case True
      with \<open>index < unat (indexOfInterfaces s)\<close> show ?thesis
        by (subst knownInterface_loop.simps) auto
    next
      case False
      with True "1.IH" have "knownInterface_loop s interfaceId (index + 1) \<longleftrightarrow>
        (\<exists>i. index + 1 \<le> i \<and> i < unat (indexOfInterfaces s) \<and> interfaceIds s i = interfaceId)"
        by simp
      moreover have "(\<exists>i. index + 1 \<le> i \<and> i < unat (indexOfInterfaces s) \<and> interfaceIds s i = interfaceId)
        \<longleftrightarrow> (\<exists>i. index \<le> i \<and> i < unat (indexOfInterfaces s) \<and> interfaceIds s i = interfaceId)"
        using False by (metis Suc_eq_plus1 Suc_leI le_neq_implies_less Suc_leD)
      ultimately show ?thesis
        using True False by (subst knownInterface_loop.simps) simp
    qed
  qed
qed

lemma knownInterface_iff:
  "knownInterface s interfaceId \<longleftrightarrow> interfaceId \<in> interfaceIds s ` {..<unat (indexOfInterfaces s)}"
  by (auto simp: knownInterface_def knownInterface_loop_iff)

lemma bind_openFunctionIndex:
  "openFunctionIndex (snd (bind interfaceId function s)) = openFunctionIndex s + 1"
  by (simp add: bind_def Let_def sendError_def)

lemma binds_openFunctionIndex:
  "openFunctionIndex (binds bs s) = openFunctionIndex s + of_nat (length bs)"
  by (induction bs s rule: binds.induct) (simp_all add: bind_openFunctionIndex)

lemma binds_append: "binds (as @ bs) s = binds bs (binds as s)"
  by (induction as s rule: binds.induct) simp_all

lemma unat_succ25: "unat (nb :: byte) < 25 \<Longrightarrow> unat (nb + 1) = Suc (unat nb)"
proof -
  assume "unat nb < 25"
  then have "unat nb + unat (1 :: byte) < 2 ^ LENGTH(8)" by simp
  then have "unat (nb + 1) = unat nb + unat (1 :: byte)" by (simp only: unat_add_lem)
  then show ?thesis by simp
qed

lemma bind_registry:
  assumes r: "registry s ids" and c: "card (insert interfaceId ids) \<le> 25"
  shows "registry (snd (bind interfaceId function s)) (insert interfaceId ids)"
proof (cases "knownInterface s interfaceId")
  case True
  then have "interfaceId \<in> ids" using r unfolding knownInterface_iff registry_def by auto
  then have "insert interfaceId ids = ids" by auto
  moreover have "interfaceIds (snd (bind interfaceId function s)) = interfaceIds s"
    "indexOfInterfaces (snd (bind interfaceId function s)) = indexOfInterfaces s"
    using True by (simp_all add: bind_def Let_def sendError_def)
  ultimately show ?thesis using r by (simp add: registry_def)
next
  case False
  let ?n = "unat (indexOfInterfaces s)"
  from False have notin: "interfaceId \<notin> ids" using r unfolding knownInterface_iff registry_def by auto
  have fin: "finite ids" using r by (auto simp: registry_def)
  have cardn: "card ids = ?n" using r by (simp add: registry_def)
  have "card (insert interfaceId ids) = Suc ?n" using notin fin cardn by simp
  with c have lt: "?n < 25" by simp
  have ids': "interfaceIds (snd (bind interfaceId function s)) = (interfaceIds s)(?n := interfaceId)"
    and n': "indexOfInterfaces (snd (bind interfaceId function s)) = indexOfInterfaces s + 1"
    using False by (simp_all add: bind_def Let_def sendError_def)
  have un: "unat (indexOfInterfaces s + 1) = Suc ?n" using lt by (rule unat_succ25)
  have "((interfaceIds s)(?n := interfaceId)) ` {..<Suc ?n} = insert interfaceId (interfaceIds s ` {..<?n})"
    by (auto simp: lessThan_Suc)
  then show ?thesis
    using r notin fin by (simp add: registry_def ids' n' un)
qed

lemma binds_registry:
  "registry s ids \<Longrightarrow> card (ids \<union> fst ` set bs) \<le> 25 \<Longrightarrow>
   registry (binds bs s) (ids \<union> fst ` set bs)"
proof (induction bs s arbitrary: ids rule: binds.induct)
  case (1 s)
  then show ?case by simp
next
  case (2 interfaceId f rest s)
  have fin: "finite (ids \<union> fst ` set ((interfaceId, f) # rest))"
    using "2.prems"(1) by (auto simp: registry_def intro: card_ge_0_finite)
  have sub: "insert interfaceId ids \<subseteq> ids \<union> fst ` set ((interfaceId, f) # rest)" by auto
  have "card (insert interfaceId ids) \<le> 25"
    using card_mono [OF fin sub] "2.prems"(2) by simp
  then have r': "registry (snd (bind interfaceId f s)) (insert interfaceId ids)"
    using "2.prems"(1) by (intro bind_registry)
  have eq: "insert interfaceId ids \<union> fst ` set rest = ids \<union> fst ` set ((interfaceId, f) # rest)"
    by auto
  have "registry (binds rest (snd (bind interfaceId f s))) (insert interfaceId ids \<union> fst ` set rest)"
    using r' "2.prems"(2) by (intro "2.IH") (simp_all add: eq)
  then show ?case by (simp add: eq)
qed

text \<open>
  C6, as the code has it. \<open>openFunctionIndex\<close> and \<open>indexOfInterfaces\<close> are bytes, the
  function table has the ids 0 to 254 and the registry 25 cells. For every sequence of
  \<open>N \<le> 251\<close> binds that uses at most 25 distinct interface ids, from a state in which
  the two counters have their initial values 4 and 0, \<open>openFunctionIndex\<close> is \<open>4 + N\<close>
  afterwards and \<open>indexOfInterfaces\<close> is the number of distinct ids used.
\<close>

theorem binds_counters:
  assumes o: "openFunctionIndex s = 4" and i: "indexOfInterfaces s = 0"
    and n: "length bs \<le> 251" and d: "card (fst ` set bs) \<le> 25"
  shows "unat (openFunctionIndex (binds bs s)) = 4 + length bs \<and>
         unat (indexOfInterfaces (binds bs s)) = card (fst ` set bs)"
proof -
  have r0: "registry s {}" by (simp add: registry_def i)
  from binds_registry [OF r0, of bs] d
  have "unat (indexOfInterfaces (binds bs s)) = card (fst ` set bs)"
    by (simp add: registry_def)
  moreover have "unat (openFunctionIndex (binds bs s)) = 4 + length bs"
  proof -
    have o': "openFunctionIndex (binds bs s) = 4 + of_nat (length bs)"
      by (simp add: binds_openFunctionIndex o)
    have l: "unat (of_nat (length bs) :: byte) = length bs"
      using n by (simp add: unat_of_nat)
    have "unat (4 :: byte) + unat (of_nat (length bs) :: byte) < 2 ^ LENGTH(8)"
      using n by (simp add: l)
    then have "unat (4 + of_nat (length bs) :: byte) = unat (4 :: byte) + unat (of_nat (length bs) :: byte)"
      by (simp only: unat_add_lem)
    then have "unat (4 + of_nat (length bs) :: byte) = 4 + length bs"
      by (simp add: l)
    with o' show ?thesis by simp
  qed
  ultimately show ?thesis by simp
qed

text \<open>The three binds of \<open>two_interfaces\<close>.\<close>

theorem binds_counters_witness:
  "openFunctionIndex (init (\<lambda>_. 0)) = 4 \<and> indexOfInterfaces (init (\<lambda>_. 0)) = 0 \<and>
   length [(''AAAA1'', Some (Native 0)), (''AAAA1'', Some (Native 1)), (''BBBB1'', Some (Native 2))] \<le> 251 \<and>
   card (fst ` set [(''AAAA1'', Some (Native 0)), (''AAAA1'', Some (Native 1)), (''BBBB1'', Some (Native 2))]) = 2 \<and>
   unat (openFunctionIndex two_interfaces) = 4 + 3 \<and>
   unat (indexOfInterfaces two_interfaces) = 2"
proof -
  let ?bs = "[(''AAAA1'', Some (Native 0)), (''AAAA1'', Some (Native 1)), (''BBBB1'', Some (Native 2))]"
  have o: "openFunctionIndex (init (\<lambda>_. 0)) = 4" and i: "indexOfInterfaces (init (\<lambda>_. 0)) = 0"
    by (simp_all add: init_def)
  have l: "length ?bs \<le> 251" by simp
  have c: "card (fst ` set ?bs) = 2" by simp
  then have c25: "card (fst ` set ?bs) \<le> 25" by simp
  from binds_counters [OF o i l c25] o i l c show ?thesis
    by (simp add: two_interfaces_def)
qed

text \<open>
  After 252 binds \<open>openFunctionIndex\<close>, a byte, has wrapped to 0, where the claim asks
  for \<open>4 + 252 = 256\<close>.
\<close>

theorem binds_counters_counterexample:
  "unat (openFunctionIndex (binds (replicate 252 (''AAAA1'', Some (Native 0))) (init (\<lambda>_. 0)))) = 0 \<and>
   4 + length (replicate 252 (''AAAA1'', Some (Native 0))) = 256"
  by (simp add: binds_openFunctionIndex init_def)

section \<open>The loop of \<open>frameReceived\<close>\<close>

lemma frameSteps_stopped: "execution s = frameTop s \<Longrightarrow> frameSteps response native k s = s"
  by (cases k) simp_all

lemma frameSteps_Suc_end:
  "frameSteps response native (Suc k) s =
     (if execution (frameSteps response native k s) \<noteq> frameTop (frameSteps response native k s)
      then dispatchStep response native (frameSteps response native k s)
      else frameSteps response native k s)"
proof (induction k arbitrary: s)
  case 0
  show ?case by simp
next
  case (Suc k)
  show ?case
  proof (cases "execution s \<noteq> frameTop s")
    case True
    have "frameSteps response native (Suc (Suc k)) s =
          frameSteps response native (Suc k) (dispatchStep response native s)"
      using True by simp
    also note Suc.IH [of "dispatchStep response native s"]
    finally show ?thesis using True by simp
  next
    case False
    then show ?thesis by simp
  qed
qed

lemma frameLoop_frameSteps:
  "execution (frameSteps response native n s) = frameTop (frameSteps response native n s) \<Longrightarrow>
   frameLoop response native s = Some (frameSteps response native n s)"
proof (induction n arbitrary: s)
  case 0
  then show ?case by (subst frameLoop.simps) simp
next
  case (Suc n)
  show ?case
  proof (cases "execution s \<noteq> frameTop s")
    case True
    with Suc.prems have "execution (frameSteps response native n (dispatchStep response native s))
        = frameTop (frameSteps response native n (dispatchStep response native s))" by simp
    then have "frameLoop response native (dispatchStep response native s) =
        Some (frameSteps response native n (dispatchStep response native s))" by (rule Suc.IH)
    with True show ?thesis by (subst frameLoop.simps) simp
  next
    case False
    then show ?thesis by (subst frameLoop.simps) simp
  qed
qed

lemma progress:
  assumes beh: "\<And>k. execution (frameSteps response native k s) \<noteq> frameTop (frameSteps response native k s)
                  \<Longrightarrow> turn_in_frame response native (frameSteps response native k s)"
    and run: "\<And>j. j < k \<Longrightarrow> execution (frameSteps response native j s) \<noteq> frameTop (frameSteps response native j s)"
    and le: "execution s \<le> frameTop s"
  shows "frameTop (frameSteps response native k s) = frameTop s \<and>
         execution s + k \<le> execution (frameSteps response native k s) \<and>
         execution (frameSteps response native k s) \<le> frameTop s"
  using run
proof (induction k)
  case 0
  show ?case using le by simp
next
  case (Suc k)
  let ?sk = "frameSteps response native k s"
  have running: "execution ?sk \<noteq> frameTop ?sk" using Suc.prems [of k] by simp
  have IH: "frameTop ?sk = frameTop s \<and> execution s + k \<le> execution ?sk \<and> execution ?sk \<le> frameTop s"
    using Suc.prems by (intro Suc.IH) simp
  have step: "frameSteps response native (Suc k) s = dispatchStep response native ?sk"
    unfolding frameSteps_Suc_end using running by (simp del: frameSteps.simps)
  from beh [OF running] IH show ?case
    unfolding step turn_in_frame_def by simp
qed


text \<open>
  C7, as the code has it. \<open>frameReceived\<close> sets \<open>execution\<close> to the frame start,
  \<open>callerSequence\<close> to the sequence id and \<open>frameTop\<close> to the exclusive end of the frame
  (\<open>install\<close>), then runs \<open>while (execution != frameTop) run(*execution++)\<close>
  (\<open>frameLoop\<close>; \<open>frameSteps k\<close> is the state after at most \<open>k\<close> turns). Suppose every
  turn the loop makes is \<open>turn_in_frame\<close>: the invoked function does not move the cursor
  back, does not move it past \<open>frameTop\<close> and does not change \<open>frameTop\<close>. Then
  \<open>frameReceived\<close> returns, after at most \<open>frameLength\<close> turns, in a state with
  \<open>execution = frameTop\<close> at the end of the frame; every turn before dispatched the byte
  at the cursor, from a cursor position inside the frame, and these positions strictly
  increase.
\<close>

theorem frameReceived_terminates:
  assumes beh: "\<And>k. execution (frameSteps response native k (install sequence frameLength frame s))
                    \<noteq> frameTop (frameSteps response native k (install sequence frameLength frame s))
                  \<Longrightarrow> turn_in_frame response native
                        (frameSteps response native k (install sequence frameLength frame s))"
  shows "execution (install sequence frameLength frame s) = frame \<and>
         frameTop (install sequence frameLength frame s) = frame + unat frameLength \<and>
         callerSequence (install sequence frameLength frame s) = sequence \<and>
         (\<exists>n\<le>unat frameLength.
            frameReceived response native sequence frameLength frame s =
              Some (frameSteps response native n (install sequence frameLength frame s)) \<and>
            execution (frameSteps response native n (install sequence frameLength frame s)) =
              frame + unat frameLength \<and>
            frameTop (frameSteps response native n (install sequence frameLength frame s)) =
              frame + unat frameLength \<and>
            (\<forall>k<n.
               frameSteps response native (Suc k) (install sequence frameLength frame s) =
                 dispatchStep response native
                   (frameSteps response native k (install sequence frameLength frame s)) \<and>
               frame \<le> execution (frameSteps response native k (install sequence frameLength frame s)) \<and>
               execution (frameSteps response native k (install sequence frameLength frame s))
                 < frame + unat frameLength \<and>
               execution (frameSteps response native k (install sequence frameLength frame s))
                 < execution (frameSteps response native (Suc k) (install sequence frameLength frame s))))"
proof -
  let ?s0 = "install sequence frameLength frame s"
  let ?L = "unat frameLength"
  let ?st = "\<lambda>k. frameSteps response native k ?s0"
  let ?stopped = "\<lambda>k. execution (?st k) = frameTop (?st k)"
  have e0: "execution ?s0 = frame" and t0: "frameTop ?s0 = frame + ?L"
    and c0: "callerSequence ?s0 = sequence"
    by (simp_all add: install_def)
  have le0: "execution ?s0 \<le> frameTop ?s0" by (simp add: e0 t0)
  note prog = progress [of response native ?s0, OF beh _ le0]
  have "\<exists>j\<le>?L. ?stopped j"
  proof (rule ccontr)
    assume "\<not> (\<exists>j\<le>?L. ?stopped j)"
    then have run: "\<And>j. j \<le> ?L \<Longrightarrow> \<not> ?stopped j" by blast
    have "frameTop (?st ?L) = frameTop ?s0 \<and> execution ?s0 + ?L \<le> execution (?st ?L) \<and>
          execution (?st ?L) \<le> frameTop ?s0"
      by (rule prog) (use run in auto)
    then have "?stopped ?L" by (simp add: e0 t0)
    with run [of ?L] show False by simp
  qed
  then obtain j where j: "j \<le> ?L" "?stopped j" by blast
  define n where "n = (LEAST j. ?stopped j)"
  have stop: "?stopped n" unfolding n_def using j(2) by (rule LeastI)
  have "n \<le> j" unfolding n_def using j(2) by (rule Least_le)
  with j(1) have nL: "n \<le> ?L" by simp
  have run: "\<not> ?stopped k" if "k < n" for k
    using that unfolding n_def by (rule not_less_Least)
  have pn: "frameTop (?st n) = frameTop ?s0"
    using prog [of n] run by auto
  have res: "frameReceived response native sequence frameLength frame s = Some (?st n)"
    unfolding frameReceived_def using stop by (rule frameLoop_frameSteps)
  have each: "?st (Suc k) = dispatchStep response native (?st k) \<and>
              frame \<le> execution (?st k) \<and> execution (?st k) < frame + ?L \<and>
              execution (?st k) < execution (?st (Suc k))" if k: "k < n" for k
  proof -
    have rk: "\<not> ?stopped k" using k by (rule run)
    have pk: "frameTop (?st k) = frameTop ?s0 \<and> execution ?s0 + k \<le> execution (?st k) \<and>
          execution (?st k) \<le> frameTop ?s0"
      by (rule prog) (use run k in auto)
    have step: "?st (Suc k) = dispatchStep response native (?st k)"
      unfolding frameSteps_Suc_end using rk by (simp del: frameSteps.simps)
    from beh [of k] rk have "turn_in_frame response native (?st k)" by simp
    then have "execution (?st k) + 1 \<le> execution (dispatchStep response native (?st k))"
      by (simp add: turn_in_frame_def)
    with pk rk show ?thesis
      unfolding step by (simp add: e0 t0)
  qed
  have en: "execution (?st n) = frame + ?L" using stop pn by (simp add: t0)
  have tn: "frameTop (?st n) = frame + ?L" using pn by (simp add: t0)
  from each have all: "\<forall>k<n. ?st (Suc k) = dispatchStep response native (?st k) \<and>
              frame \<le> execution (?st k) \<and> execution (?st k) < frame + ?L \<and>
              execution (?st k) < execution (?st (Suc k))"
    by blast
  from nL res en tn all have "\<exists>n\<le>?L.
      frameReceived response native sequence frameLength frame s = Some (?st n) \<and>
      execution (?st n) = frame + ?L \<and> frameTop (?st n) = frame + ?L \<and>
      (\<forall>k<n. ?st (Suc k) = dispatchStep response native (?st k) \<and>
              frame \<le> execution (?st k) \<and> execution (?st k) < frame + ?L \<and>
              execution (?st k) < execution (?st (Suc k)))"
    by blast
  with e0 t0 c0 show ?thesis by blast
qed


lemma rewinding_step: "rewinding s \<Longrightarrow> rewinding (dispatchStep 0x7C rewind s)"
  by (simp add: rewinding_def dispatchStep_def fetch_def run_def call_def rewind_def)

lemma rewinding_steps: "rewinding s \<Longrightarrow> rewinding (frameSteps 0x7C rewind k s)"
  by (induction k arbitrary: s) (simp_all add: rewinding_step)

lemma frameLoop_never_returns:
  assumes keeps: "\<And>s. I s \<Longrightarrow> execution s \<noteq> frameTop s \<and> I (dispatchStep response native s)"
    and start: "I s"
  shows "frameLoop response native s = None"
proof (cases "frameLoop response native s")
  case None
  then show ?thesis .
next
  case (Some y)
  have "\<not> (response = response \<and> native = native \<and> I s)"
  proof (rule frameLoop.raw_induct
      [where P = "\<lambda>r n s y. \<not> (r = response \<and> n = native \<and> I s)", OF _ Some])
    fix loop :: "byte \<Rightarrow> (nat \<Rightarrow> state \<Rightarrow> state) \<Rightarrow> state \<Rightarrow> state option"
      and r n s' y'
    assume IH: "\<And>r n s y. loop r n s = Some y \<Longrightarrow> \<not> (r = response \<and> n = native \<and> I s)"
      and eq: "(if execution s' \<noteq> frameTop s' then loop r n (dispatchStep r n s') else Some s') = Some y'"
    show "\<not> (r = response \<and> n = native \<and> I s')"
    proof
      assume a: "r = response \<and> n = native \<and> I s'"
      with keeps [of s'] have ne: "execution s' \<noteq> frameTop s'"
        and nxt: "I (dispatchStep r n s')" by simp_all
      from eq ne have "loop r n (dispatchStep r n s') = Some y'" by simp
      then have "\<not> (r = response \<and> n = native \<and> I (dispatchStep r n s'))" by (rule IH)
      with a nxt show False by simp
    qed
  qed
  with start show ?thesis by simp
qed

lemma rewind_ex_rewinding: "rewinding (install 0 1 100 rewind_ex)"
  by (simp add: rewinding_def install_def rewind_ex_def init_def)

lemma extending_step: "extending s \<Longrightarrow> extending (dispatchStep 0x7C extend s)"
  by (simp add: extending_def dispatchStep_def fetch_def run_def call_def extend_def)

lemma extending_steps: "extending s \<Longrightarrow> extending (frameSteps 0x7C extend k s)"
  by (induction k arbitrary: s) (simp_all add: extending_step)

lemma rewind_ex_extending: "extending (install 0 1 100 rewind_ex)"
  by (simp add: extending_def install_def rewind_ex_def init_def)

text \<open>
  Neither added condition can be dropped. On the one-byte frame of \<open>rewind_ex\<close> the
  invoked function \<open>rewind\<close> never leaves the cursor past \<open>frameTop\<close> (after every turn
  \<open>execution\<close> is 100 and \<open>frameTop\<close> is 101), and neither does \<open>extend\<close>, which does
  not touch the cursor and moves \<open>frameTop\<close> instead. In both cases \<open>frameReceived\<close>
  does not return.
\<close>

theorem rewinding_frame_counterexample:
  "frameReceived 0x7C rewind 0 1 100 rewind_ex = None \<and>
   (\<forall>k. execution (frameSteps 0x7C rewind k (install 0 1 100 rewind_ex))
          \<le> frameTop (frameSteps 0x7C rewind k (install 0 1 100 rewind_ex))) \<and>
   execution (dispatchStep 0x7C rewind (install 0 1 100 rewind_ex)) = 100 \<and>
   frameTop (dispatchStep 0x7C rewind (install 0 1 100 rewind_ex)) = 101 \<and>
   frameReceived 0x7C extend 0 1 100 rewind_ex = None \<and>
   (\<forall>k. execution (frameSteps 0x7C extend k (install 0 1 100 rewind_ex))
          \<le> frameTop (frameSteps 0x7C extend k (install 0 1 100 rewind_ex))) \<and>
   execution (dispatchStep 0x7C extend (install 0 1 100 rewind_ex)) = 101 \<and>
   frameTop (dispatchStep 0x7C extend (install 0 1 100 rewind_ex)) = 102"
proof -
  have "frameLoop 0x7C rewind (install 0 1 100 rewind_ex) = None"
    by (rule frameLoop_never_returns [where I = rewinding])
       (simp_all add: rewinding_step rewind_ex_rewinding, simp add: rewinding_def)
  then have a: "frameReceived 0x7C rewind 0 1 100 rewind_ex = None"
    by (simp add: frameReceived_def)
  have b: "execution (frameSteps 0x7C rewind k (install 0 1 100 rewind_ex))
          \<le> frameTop (frameSteps 0x7C rewind k (install 0 1 100 rewind_ex))" for k
    using rewinding_steps [OF rewind_ex_rewinding, of k] by (simp add: rewinding_def)
  have c: "rewinding (dispatchStep 0x7C rewind (install 0 1 100 rewind_ex))"
    using rewind_ex_rewinding by (rule rewinding_step)
  have "frameLoop 0x7C extend (install 0 1 100 rewind_ex) = None"
    by (rule frameLoop_never_returns [where I = extending])
       (simp_all add: extending_step rewind_ex_extending, simp add: extending_def)
  then have a': "frameReceived 0x7C extend 0 1 100 rewind_ex = None"
    by (simp add: frameReceived_def)
  have b': "execution (frameSteps 0x7C extend k (install 0 1 100 rewind_ex))
          \<le> frameTop (frameSteps 0x7C extend k (install 0 1 100 rewind_ex))" for k
    using extending_steps [OF rewind_ex_extending, of k] by (simp add: extending_def)
  have c': "execution (dispatchStep 0x7C extend (install 0 1 100 rewind_ex)) = 101"
    "frameTop (dispatchStep 0x7C extend (install 0 1 100 rewind_ex)) = 102"
    by (simp_all add: dispatchStep_def fetch_def run_def call_def extend_def install_def
          rewind_ex_def init_def)
  from a b c a' b' c' show ?thesis by (simp add: rewinding_def)
qed

lemma pushArray_push_1: "pushArray_push 0 s = readPush 0 s"
  by (simp add: pushArray_push.simps readPush_def)

lemma pushArray_advance_1:
  "execution s + 1 \<le> frameTop s \<Longrightarrow> pushArray_advance 0 1 s = s\<lparr>execution := execution s + 1\<rparr>"
  by (simp add: pushArray_advance.simps Let_def)

lemma script_step1:
  "dispatchStep 0x7C (\<lambda>k s. s) (install 0 4 100 script_ex) =
     script_ex\<lparr>execution := 103, callerSequence := 0, frameTop := 104, reads := [100, 101, 102],
       parameterStackTop := 0, parameterStack := (\<lambda>_. 0)(0 := 0x55)\<rparr>"
proof -
  let ?f = "script_ex\<lparr>execution := 101, callerSequence := 0, frameTop := 104, reads := [100]\<rparr>"
  let ?g = "script_ex\<lparr>execution := 102, callerSequence := 0, frameTop := 104, reads := [100, 101]\<rparr>"
  have "dispatchStep 0x7C (\<lambda>k s. s) (install 0 4 100 script_ex) = pushArray ?f"
    by (simp add: dispatchStep_def fetch_def run_def call_def install_def script_ex_def init_def)
  also have "\<dots> = pushArray_advance 0 1 (readPush 0 ?g)"
    by (simp add: pushArray_def Let_def pushArray_push_1 script_ex_def init_def)
  also have "\<dots> = (readPush 0 ?g)\<lparr>execution := execution (readPush 0 ?g) + 1\<rparr>"
    by (rule pushArray_advance_1) simp
  also have "\<dots> = script_ex\<lparr>execution := 103, callerSequence := 0, frameTop := 104, reads := [100, 101, 102],
       parameterStackTop := 0, parameterStack := (\<lambda>_. 0)(0 := 0x55)\<rparr>"
    by (rule state.equality) (simp_all add: readPush_room script_ex_def init_def)
  finally show ?thesis .
qed

lemma script_step2:
  "dispatchStep 0x7C (\<lambda>k s. s)
     (script_ex\<lparr>execution := 103, callerSequence := 0, frameTop := 104, reads := [100, 101, 102],
       parameterStackTop := 0, parameterStack := (\<lambda>_. 0)(0 := 0x55)\<rparr>) =
     script_ex\<lparr>execution := 104, callerSequence := 0, frameTop := 104, reads := [100, 101, 102, 103],
       parameterStackTop := 0, parameterStack := (\<lambda>_. 0)(0 := 0x55),
       sent := [SendError FUNCTIONS_ERROR_FUNCTION_NOT_FOUND]\<rparr>"
  by (simp add: dispatchStep_def fetch_def run_def sendError_def script_ex_def init_def)

text \<open>
  The frame of \<open>script_ex\<close>: the first turn runs \<open>pushArray\<close> over the bytes at 101 and
  102, the second finds id 9 unbound, and the loop ends with the cursor at 104.
\<close>

theorem frameReceived_terminates_witness:
  "turn_in_frame 0x7C (\<lambda>k s. s) (install 0 4 100 script_ex) \<and>
   turn_in_frame 0x7C (\<lambda>k s. s) (frameSteps 0x7C (\<lambda>k s. s) 1 (install 0 4 100 script_ex)) \<and>
   execution (frameSteps 0x7C (\<lambda>k s. s) 2 (install 0 4 100 script_ex)) =
     frameTop (frameSteps 0x7C (\<lambda>k s. s) 2 (install 0 4 100 script_ex)) \<and>
   map_option execution (frameReceived 0x7C (\<lambda>k s. s) 0 4 100 script_ex) = Some 104 \<and>
   map_option frameTop (frameReceived 0x7C (\<lambda>k s. s) 0 4 100 script_ex) = Some 104"
proof -
  let ?s0 = "install 0 4 100 script_ex"
  let ?s1 = "script_ex\<lparr>execution := 103, callerSequence := 0, frameTop := 104, reads := [100, 101, 102],
       parameterStackTop := 0, parameterStack := (\<lambda>_. 0)(0 := 0x55)\<rparr>"
  let ?s2 = "script_ex\<lparr>execution := 104, callerSequence := 0, frameTop := 104, reads := [100, 101, 102, 103],
       parameterStackTop := 0, parameterStack := (\<lambda>_. 0)(0 := 0x55),
       sent := [SendError FUNCTIONS_ERROR_FUNCTION_NOT_FOUND]\<rparr>"
  let ?st = "\<lambda>k. frameSteps 0x7C (\<lambda>k s. s) k ?s0"
  have r0: "execution ?s0 \<noteq> frameTop ?s0" by (simp add: install_def)
  have st1: "?st (Suc 0) = ?s1"
    using r0 by (simp add: script_step1)
  have st2: "?st (Suc (Suc 0)) = ?s2"
    using r0 by (simp add: script_step1 script_step2)
  have later: "?st (Suc (Suc j)) = ?s2" for j
    using r0 by (simp add: script_step1 script_step2 frameSteps_stopped)
  have t0: "turn_in_frame 0x7C (\<lambda>k s. s) ?s0"
    unfolding turn_in_frame_def script_step1 by (simp add: install_def)
  have t1: "turn_in_frame 0x7C (\<lambda>k s. s) ?s1"
    unfolding turn_in_frame_def script_step2 by simp
  have beh: "turn_in_frame 0x7C (\<lambda>k s. s) (?st k)" if "execution (?st k) \<noteq> frameTop (?st k)" for k
  proof (cases k)
    case 0
    with t0 show ?thesis by simp
  next
    case (Suc i)
    show ?thesis
    proof (cases i)
      case 0
      with Suc t1 st1 show ?thesis by simp
    next
      case (Suc j)
      with \<open>k = Suc i\<close> that later [of j] show ?thesis by simp
    qed
  qed
  from frameReceived_terminates [of "0x7C" "\<lambda>k s. s" 0 4 100 script_ex, OF beh]
  obtain n where "frameReceived 0x7C (\<lambda>k s. s) 0 4 100 script_ex = Some (?st n)"
    and "execution (?st n) = 100 + unat (4 :: byte)" and "frameTop (?st n) = 100 + unat (4 :: byte)"
    by blast
  then have "map_option execution (frameReceived 0x7C (\<lambda>k s. s) 0 4 100 script_ex) = Some 104"
    and "map_option frameTop (frameReceived 0x7C (\<lambda>k s. s) 0 4 100 script_ex) = Some 104"
    by simp_all
  moreover have "execution (?st 2) = frameTop (?st 2)"
    using st2 by (simp add: numeral_2_eq_2)
  moreover have "turn_in_frame 0x7C (\<lambda>k s. s) (?st 1)"
    using t1 st1 by simp
  ultimately show ?thesis using t0 by simp
qed

end
